theory Spec2Isabelle
  imports Complex_Main
begin

section \<open>The DAXPY benchmark drivers\<close>

text \<open>
  The repository holds two command-line drivers for the vector update
  \<open>y[i] = alpha * x[i] + y[i]\<close>:
  \<^item> \<^verbatim>\<open>daxpy_benchmark.cpp\<close> (class \<^verbatim>\<open>DaxpyBenchmark\<close>), whose workers are launched and
    joined without any synchronisation in between, and
  \<^item> \<^verbatim>\<open>multi_threaded_daxpy.cpp\<close> (class \<^verbatim>\<open>MultiThreadedDaxpy\<close>), whose workers meet at
    a \<^verbatim>\<open>std::barrier\<close> before and after their loop and whose result is checked against a
    sequential recomputation.

  Conventions of the embedding.
  \<^item> The element type \<^verbatim>\<open>double\<close> is a type parameter \<open>'a\<close>. The kernel only needs the
    syntactic classes \<open>times\<close> and \<open>plus\<close>, which carry no laws, so what is proved about
    it holds for every interpretation of \<open>*\<close> and \<open>+\<close>. The verifier compares and
    subtracts, and is stated over a linearly ordered field (\<open>real\<close> is the instance used
    in the examples); rounding, infinities and NaN are outside that abstraction.
  \<^item> \<^verbatim>\<open>size_t\<close> values are \<open>nat\<close>. The only arithmetic on them is \<open>N / T\<close>,
    \<open>t * (N / T)\<close> and \<open>(t + 1) * (N / T)\<close> with \<open>t < T\<close>; lemma \<open>part_no_overflow\<close>
    shows that these never exceed \<open>N\<close>, so nothing wraps around.
  \<^item> Threads are interleaved explicitly: a configuration holds the shared vector, the
    barrier, the statistics log and one program counter per worker; a schedule is the list
    of thread ids in the order in which the scheduler lets them take one step.
\<close>

subsection \<open>The sequential kernel\<close>

text \<open>
  The loop \<^verbatim>\<open>for (size_t i = start; i < end; ++i) y[i] = alpha * x[i] + y[i];\<close>
  of \<^verbatim>\<open>DaxpyBenchmark::daxpy_thread\<close>, which is also the loop of
  \<^verbatim>\<open>MultiThreadedDaxpy::run_sequential\<close> and \<^verbatim>\<open>verify_results\<close> (from 0 to the vector size).
\<close>

function daxpy_loop :: "'a::{times,plus} \<Rightarrow> 'a list \<Rightarrow> nat \<Rightarrow> nat \<Rightarrow> 'a list \<Rightarrow> 'a list" where
  "daxpy_loop a xs i e ys =
     (if i < e then daxpy_loop a xs (Suc i) e (ys[i := a * xs ! i + ys ! i]) else ys)"
  by pat_completeness auto
termination
  by (relation "measure (\<lambda>(a, xs, i, e, ys). e - i)") auto

declare daxpy_loop.simps [simp del]

subsection \<open>Static partitioning\<close>

text \<open>
  \<^verbatim>\<open>run_multithreaded\<close> computes \<^verbatim>\<open>chunk_size = vector_size / num_threads\<close> once and, for
  worker \<open>t\<close>, \<^verbatim>\<open>start = t * chunk_size\<close> and
  \<^verbatim>\<open>end = (t == num_threads - 1) ? vector_size : (t + 1) * chunk_size\<close>.
  \<^verbatim>\<open>thread_worker\<close> computes the same bounds inside each worker, with
  \<^verbatim>\<open>end_idx = start_idx + elements_per_thread\<close> for the workers before the last.
  The division is only executed with a positive thread count (driver 1 calls
  \<^verbatim>\<open>run_multithreaded\<close> only when \<^verbatim>\<open>num_threads > 1\<close>, driver 2 rejects counts below 1).
\<close>

definition chunk_size :: "nat \<Rightarrow> nat \<Rightarrow> nat" where
  "chunk_size N T = N div T"

definition part_start :: "nat \<Rightarrow> nat \<Rightarrow> nat \<Rightarrow> nat" where
  "part_start N T t = t * chunk_size N T"

definition part_end :: "nat \<Rightarrow> nat \<Rightarrow> nat \<Rightarrow> nat" where
  "part_end N T t = (if t = T - 1 then N else (t + 1) * chunk_size N T)"

definition worker_start :: "nat \<Rightarrow> nat \<Rightarrow> nat \<Rightarrow> nat" where
  "worker_start N T t = t * (N div T)"

definition worker_end :: "nat \<Rightarrow> nat \<Rightarrow> nat \<Rightarrow> nat" where
  "worker_end N T t = (if t = T - 1 then N else worker_start N T t + N div T)"

text \<open>The ranges in launch order, one per worker.\<close>

definition partitions :: "nat \<Rightarrow> nat \<Rightarrow> (nat \<times> nat) list" where
  "partitions N T = map (\<lambda>t. (part_start N T t, part_end N T t)) [0..<T]"

definition worker_partitions :: "nat \<Rightarrow> nat \<Rightarrow> (nat \<times> nat) list" where
  "worker_partitions N T = map (\<lambda>t. (worker_start N T t, worker_end N T t)) [0..<T]"

subsection \<open>The two classes\<close>

text \<open>
  \<^verbatim>\<open>DaxpyBenchmark\<close> has the members \<^verbatim>\<open>x\<close>, \<^verbatim>\<open>y\<close>, \<^verbatim>\<open>vector_size\<close>,
  \<^verbatim>\<open>num_threads\<close> and \<^verbatim>\<open>alpha\<close>; \<^verbatim>\<open>MultiThreadedDaxpy\<close> has the same five and, in
  addition, \<^verbatim>\<open>y_original\<close> and \<^verbatim>\<open>thread_barrier\<close>, so it is modelled as an extension of
  the first record. The vectors are called \<open>x_vec\<close> and \<open>y_vec\<close> here. \<^verbatim>\<open>MultiThreadedDaxpy\<close>
  declares \<^verbatim>\<open>int num_threads\<close>; its only constructor call passes a value that \<^verbatim>\<open>main\<close> has
  checked to be at least 1, so the member is a \<open>nat\<close> in both records.

  Of \<^verbatim>\<open>std::barrier\<close> the model keeps the number of parties, the number of arrivals of the
  current phase and the number of completed phases.
\<close>

record 'a DaxpyBenchmark =
  x_vec :: "'a list"
  y_vec :: "'a list"
  vector_size :: nat
  num_threads :: nat
  alpha :: 'a

record barrier =
  expected :: nat
  arrived :: nat
  phase :: nat

record 'a MultiThreadedDaxpy = "'a DaxpyBenchmark" +
  y_original :: "'a list"
  thread_barrier :: barrier

text \<open>
  The constructor of \<^verbatim>\<open>DaxpyBenchmark\<close> resizes both vectors to \<^verbatim>\<open>vector_size\<close> (value
  initialised, so all zero) and fills them with
  \<^verbatim>\<open>x[i] = static_cast<double>(i + 1)\<close> and \<^verbatim>\<open>y[i] = static_cast<double>(vector_size - i)\<close>.
\<close>

function init_loop :: "nat \<Rightarrow> nat \<Rightarrow> 'a::semiring_1 list \<times> 'a list \<Rightarrow> 'a list \<times> 'a list" where
  "init_loop i n (xs, ys) =
     (if i < n then init_loop (Suc i) n (xs[i := of_nat (i + 1)], ys[i := of_nat (n - i)])
      else (xs, ys))"
  by pat_completeness auto
termination
  by (relation "measure (\<lambda>(i, n, v). n - i)") auto

declare init_loop.simps [simp del]

definition new_DaxpyBenchmark :: "nat \<Rightarrow> nat \<Rightarrow> 'a::semiring_1 \<Rightarrow> 'a DaxpyBenchmark" where
  "new_DaxpyBenchmark sz threads a =
     (let (xs, ys) = init_loop 0 sz (replicate sz 0, replicate sz 0)
      in \<lparr>x_vec = xs, y_vec = ys, vector_size = sz, num_threads = threads, alpha = a\<rparr>)"

text \<open>
  The constructor of \<^verbatim>\<open>MultiThreadedDaxpy\<close> draws \<^verbatim>\<open>x[i]\<close>, then \<^verbatim>\<open>y[i]\<close>, from a random
  generator seeded by \<^verbatim>\<open>std::random_device\<close>, copies \<^verbatim>\<open>y[i]\<close> to \<^verbatim>\<open>y_original[i]\<close>, and
  constructs the barrier for \<^verbatim>\<open>threads\<close> parties. The generator is the parameter \<open>rnd\<close>:
  \<open>rnd k\<close> is the value of the \<open>k\<close>-th draw.
\<close>

function random_loop ::
  "(nat \<Rightarrow> 'a) \<Rightarrow> nat \<Rightarrow> nat \<Rightarrow> 'a list \<times> 'a list \<times> 'a list \<Rightarrow> 'a list \<times> 'a list \<times> 'a list" where
  "random_loop rnd i n (xs, ys, os) =
     (if i < n
      then random_loop rnd (Suc i) n
             (xs[i := rnd (2 * i)], ys[i := rnd (2 * i + 1)], os[i := rnd (2 * i + 1)])
      else (xs, ys, os))"
  by pat_completeness auto
termination
  by (relation "measure (\<lambda>(rnd, i, n, v). n - i)") auto

declare random_loop.simps [simp del]

definition new_MultiThreadedDaxpy ::
  "(nat \<Rightarrow> 'a) \<Rightarrow> nat \<Rightarrow> nat \<Rightarrow> 'a::zero \<Rightarrow> 'a MultiThreadedDaxpy" where
  "new_MultiThreadedDaxpy rnd sz threads a =
     (let (xs, ys, os) = random_loop rnd 0 sz (replicate sz 0, replicate sz 0, replicate sz 0)
      in \<lparr>x_vec = xs, y_vec = ys, vector_size = sz, num_threads = threads, alpha = a,
          y_original = os, thread_barrier = \<lparr>expected = threads, arrived = 0, phase = 0\<rparr>\<rparr>)"

text \<open>The class invariant both constructors establish: the vectors have \<^verbatim>\<open>vector_size\<close> elements.\<close>

definition sized :: "('a, 'z) DaxpyBenchmark_scheme \<Rightarrow> bool" where
  "sized b \<longleftrightarrow> length (x_vec b) = vector_size b \<and> length (y_vec b) = vector_size b"

subsection \<open>Sequential methods\<close>

text \<open>\<^verbatim>\<open>daxpy_thread(start, end)\<close> called in the calling thread, as \<^verbatim>\<open>run_single_threaded\<close> does.\<close>

definition daxpy_thread ::
  "nat \<Rightarrow> nat \<Rightarrow> ('a::{times,plus}, 'z) DaxpyBenchmark_scheme \<Rightarrow> ('a, 'z) DaxpyBenchmark_scheme" where
  "daxpy_thread start stop b = b\<lparr>y_vec := daxpy_loop (alpha b) (x_vec b) start stop (y_vec b)\<rparr>"

definition run_single_threaded :: "'a::{times,plus} DaxpyBenchmark \<Rightarrow> 'a DaxpyBenchmark" where
  "run_single_threaded b = daxpy_thread 0 (vector_size b) b"

text \<open>
  \<^verbatim>\<open>print_results\<close>, and the last loop of \<^verbatim>\<open>verify_results\<close>: the values
  \<^verbatim>\<open>y[i]\<close> for \<^verbatim>\<open>i < std::min(10, vector_size)\<close>, in order.
\<close>

definition print_results :: "('a, 'z) DaxpyBenchmark_scheme \<Rightarrow> 'a list" where
  "print_results b = map (\<lambda>i. y_vec b ! i) [0..<min 10 (vector_size b)]"


subsection \<open>The verifier\<close>

text \<open>
  \<^verbatim>\<open>std::max(a, b)\<close> is \<^verbatim>\<open>(a < b) ? b : a\<close>. The comparison loop of \<^verbatim>\<open>verify_results\<close>
  carries the flag \<^verbatim>\<open>correct\<close> and the running \<^verbatim>\<open>max_error\<close>; the literal \<^verbatim>\<open>1e-10\<close> is
  \<open>tolerance\<close>.
\<close>

definition std_max :: "'a::ord \<Rightarrow> 'a \<Rightarrow> 'a" where
  "std_max a b = (if a < b then b else a)"

definition tolerance :: "'a::field" where
  "tolerance = 1 / 10 ^ 10"

function compare_loop ::
  "'a::linordered_field list \<Rightarrow> 'a list \<Rightarrow> nat \<Rightarrow> nat \<Rightarrow> bool \<times> 'a \<Rightarrow> bool \<times> 'a" where
  "compare_loop ps ys i n (correct, max_error) =
     (if i < n
      then (let error = \<bar>ps ! i - ys ! i\<bar>
            in compare_loop ps ys (Suc i) n
                 (if error > tolerance then False else correct, std_max max_error error))
      else (correct, max_error))"
  by pat_completeness auto
termination
  by (relation "measure (\<lambda>(ps, ys, i, n, v). n - i)") auto

declare compare_loop.simps [simp del]

text \<open>What the drivers print, line by line. Elapsed times come from the clock and carry no value here.\<close>

datatype exn = InvalidArgument | OutOfRange | BadAlloc | SystemError

datatype 'a line =
    Banner nat nat 'a
  | StartingComputation
  | SingleThreadedTime
  | MultiThreadedTime
  | FirstResults "'a list"
  | BenchmarkCompleted
  | Usage
  | InvalidThreads nat
  | ZeroVectorSize
  | StartingParallel
  | ParallelTime
  | Verification bool 'a
  | CompletedSuccessfully
  | ErrorLine exn

text \<open>
  \<^verbatim>\<open>verify_results\<close>, with the state after each of its assignments to \<^verbatim>\<open>y\<close> named: \<open>b1\<close>
  after \<^verbatim>\<open>y = y_original\<close>, \<open>b2\<close> after the sequential loop, \<open>b3\<close> after
  \<^verbatim>\<open>y = parallel_result\<close>. It returns the object and the lines it printed.
\<close>

definition verify_results ::
  "'a::linordered_field MultiThreadedDaxpy \<Rightarrow> 'a MultiThreadedDaxpy \<times> 'a line list" where
  "verify_results b =
     (let parallel_result = y_vec b;
          b1 = b\<lparr>y_vec := y_original b\<rparr>;
          b2 = b1\<lparr>y_vec := daxpy_loop (alpha b1) (x_vec b1) 0 (vector_size b1) (y_vec b1)\<rparr>;
          (correct, max_error) = compare_loop parallel_result (y_vec b2) 0 (vector_size b2) (True, 0);
          b3 = b2\<lparr>y_vec := parallel_result\<rparr>
      in (b3, [Verification correct max_error, FirstResults (print_results b3)]))"

text \<open>
  The verifier's contract in the specification's words: the sequential result is
  \<open>y_seq[i] = alpha * x[i] + y_orig[i]\<close> for all \<open>i\<close>, and the error is the maximum over
  \<open>i\<close> of \<open>|y_par[i] - y_seq[i]|\<close>. These two definitions are what \<^verbatim>\<open>verify_results\<close> is
  compared with.
\<close>

definition sequential_result :: "'a::{times,plus} MultiThreadedDaxpy \<Rightarrow> 'a list" where
  "sequential_result b = map (\<lambda>i. alpha b * x_vec b ! i + y_original b ! i) [0..<vector_size b]"

definition max_abs_error :: "'a::linordered_field list \<Rightarrow> 'a list \<Rightarrow> nat \<Rightarrow> 'a" where
  "max_abs_error ps qs n = Max (set (map (\<lambda>i. \<bar>ps ! i - qs ! i\<bar>) [0..<n]))"

subsection \<open>Worker threads\<close>

text \<open>
  A worker is at one of these points of its code. \<open>Loop i\<close> is the loop head with counter
  \<open>i\<close>; \<open>Store i v\<close> is the point where \<^verbatim>\<open>alpha * x[i] + y[i]\<close> has been evaluated to \<open>v\<close>
  and is about to be written to \<^verbatim>\<open>y[i]\<close>, so reading and writing \<^verbatim>\<open>y[i]\<close> are two steps
  between which other workers may run. The other points belong to \<^verbatim>\<open>thread_worker\<close> only:
  \<open>Arrive1\<close>/\<open>Arrive2\<close> before the first/second \<^verbatim>\<open>arrive_and_wait()\<close>, \<open>Wait1 g\<close>/\<open>Wait2 g\<close>
  blocked in it after arriving in barrier phase \<open>g\<close>, \<open>Hook1\<close>/\<open>Hook2\<close> at the
  \<^verbatim>\<open>if (thread_id == 0)\<close> that follows it.
\<close>

datatype hook = ResetStats | DumpStats

datatype 'a pc =
    Arrive1 | Wait1 nat | Hook1
  | Loop nat | Store nat 'a
  | Arrive2 | Wait2 nat | Hook2
  | Done

record 'a cfg =
  mem :: "'a list"
  bar :: barrier
  hooks :: "(nat \<times> hook) list"
  pcs :: "'a pc list"

text \<open>
  An arrival at the barrier: the last of the expected parties completes the phase and
  resets the count. A party that arrived in phase \<open>g\<close> is released once the phase
  counter has moved on from \<open>g\<close>.
\<close>

definition arrive :: "barrier \<Rightarrow> barrier" where
  "arrive b =
     (if Suc (arrived b) = expected b then b\<lparr>arrived := 0, phase := Suc (phase b)\<rparr>
      else b\<lparr>arrived := Suc (arrived b)\<rparr>)"

text \<open>
  One step of worker \<open>tid\<close>. With \<open>gated = False\<close> the worker runs
  \<^verbatim>\<open>DaxpyBenchmark::daxpy_thread(start, end)\<close> with the bounds the launch loop passed; with
  \<open>gated = True\<close> it runs \<^verbatim>\<open>MultiThreadedDaxpy::thread_worker(tid)\<close>. \<open>gem5\<close> says whether the
  build defines \<^verbatim>\<open>GEM5\<close>, in which case worker 0 calls \<^verbatim>\<open>m5_dump_reset_stats\<close> after the
  first barrier and \<^verbatim>\<open>m5_dump_stats\<close> after the second. A blocked or finished worker's step
  changes nothing.
\<close>

definition worker_step ::
  "bool \<Rightarrow> bool \<Rightarrow> 'a::{times,plus} \<Rightarrow> 'a list \<Rightarrow> nat \<Rightarrow> nat \<Rightarrow> nat \<Rightarrow> 'a cfg \<Rightarrow> 'a cfg" where
  "worker_step gated gem5 a xs N T tid c =
     (if tid < length (pcs c) then
        (case pcs c ! tid of
           Arrive1 \<Rightarrow> c\<lparr>bar := arrive (bar c), pcs := (pcs c)[tid := Wait1 (phase (bar c))]\<rparr>
         | Wait1 g \<Rightarrow> if phase (bar c) = g then c else c\<lparr>pcs := (pcs c)[tid := Hook1]\<rparr>
         | Hook1 \<Rightarrow>
             c\<lparr>hooks := (if tid = 0 \<and> gem5 then hooks c @ [(tid, ResetStats)] else hooks c),
               pcs := (pcs c)[tid := Loop (worker_start N T tid)]\<rparr>
         | Loop i \<Rightarrow>
             if i < (if gated then worker_end N T tid else part_end N T tid)
             then c\<lparr>pcs := (pcs c)[tid := Store i (a * xs ! i + mem c ! i)]\<rparr>
             else c\<lparr>pcs := (pcs c)[tid := (if gated then Arrive2 else Done)]\<rparr>
         | Store i v \<Rightarrow> c\<lparr>mem := (mem c)[i := v], pcs := (pcs c)[tid := Loop (Suc i)]\<rparr>
         | Arrive2 \<Rightarrow> c\<lparr>bar := arrive (bar c), pcs := (pcs c)[tid := Wait2 (phase (bar c))]\<rparr>
         | Wait2 g \<Rightarrow> if phase (bar c) = g then c else c\<lparr>pcs := (pcs c)[tid := Hook2]\<rparr>
         | Hook2 \<Rightarrow>
             c\<lparr>hooks := (if tid = 0 \<and> gem5 then hooks c @ [(tid, DumpStats)] else hooks c),
               pcs := (pcs c)[tid := Done]\<rparr>
         | Done \<Rightarrow> c)
      else c)"

text \<open>Running the workers under a schedule, and the test that every worker has returned.\<close>

definition run_threads ::
  "bool \<Rightarrow> bool \<Rightarrow> 'a::{times,plus} \<Rightarrow> 'a list \<Rightarrow> nat \<Rightarrow> nat \<Rightarrow> nat list \<Rightarrow> 'a cfg \<Rightarrow> 'a cfg" where
  "run_threads gated gem5 a xs N T sched c = fold (worker_step gated gem5 a xs N T) sched c"

fun is_done :: "'a pc \<Rightarrow> bool" where
  "is_done Done = True"
| "is_done _ = False"

definition all_done :: "'a cfg \<Rightarrow> bool" where
  "all_done c = list_all is_done (pcs c)"

text \<open>
  \<^verbatim>\<open>run_multithreaded\<close> launches worker \<open>t\<close> on \<open>[start, end)\<close> for \<open>t = 0, \<dots>, num_threads - 1\<close>
  and joins them all. \<open>launch\<close> is the configuration in which every worker exists and
  none has taken a step; a worker that is launched late is one that the schedule lets
  step late, so the schedules from \<open>launch\<close> cover every order in which the launches and
  the workers' steps can happen. The result is \<open>None\<close> when the schedule ends before
  every worker has returned, that is, while \<^verbatim>\<open>join\<close> is still blocked. The method is only
  called with \<^verbatim>\<open>num_threads > 1\<close>, so its division has a non-zero divisor.
\<close>

definition launch :: "'a DaxpyBenchmark \<Rightarrow> 'a cfg" where
  "launch b =
     \<lparr>mem = y_vec b, bar = \<lparr>expected = 0, arrived = 0, phase = 0\<rparr>, hooks = [],
      pcs = map (\<lambda>t. Loop (part_start (vector_size b) (num_threads b) t)) [0..<num_threads b]\<rparr>"

definition run_multithreaded ::
  "nat list \<Rightarrow> 'a::{times,plus} DaxpyBenchmark \<Rightarrow> 'a DaxpyBenchmark option" where
  "run_multithreaded sched b =
     (let c = run_threads False False (alpha b) (x_vec b) (vector_size b) (num_threads b) sched
                (launch b)
      in if all_done c then Some (b\<lparr>y_vec := mem c\<rparr>) else None)"

text \<open>
  \<^verbatim>\<open>run_parallel\<close> launches \<^verbatim>\<open>thread_worker(i)\<close> for \<open>i = 0, \<dots>, num_threads - 1\<close>, joins them
  and calls \<^verbatim>\<open>verify_results\<close>. \<open>launch_workers\<close> is the configuration after the launches;
  \<open>parallel_phase\<close> is the object once every worker has returned, together with the log
  of statistics calls.
\<close>

definition launch_workers :: "'a MultiThreadedDaxpy \<Rightarrow> 'a cfg" where
  "launch_workers b =
     \<lparr>mem = y_vec b, bar = thread_barrier b, hooks = [],
      pcs = map (\<lambda>i. Arrive1) [0..<num_threads b]\<rparr>"

definition parallel_phase ::
  "bool \<Rightarrow> nat list \<Rightarrow> 'a::{times,plus} MultiThreadedDaxpy
     \<Rightarrow> ('a MultiThreadedDaxpy \<times> (nat \<times> hook) list) option" where
  "parallel_phase gem5 sched b =
     (let c = run_threads True gem5 (alpha b) (x_vec b) (vector_size b) (num_threads b) sched
                (launch_workers b)
      in if all_done c then Some (b\<lparr>y_vec := mem c, thread_barrier := bar c\<rparr>, hooks c) else None)"

definition run_parallel ::
  "bool \<Rightarrow> nat list \<Rightarrow> 'a::linordered_field MultiThreadedDaxpy
     \<Rightarrow> ('a MultiThreadedDaxpy \<times> 'a line list) option" where
  "run_parallel gem5 sched b =
     (case parallel_phase gem5 sched b of
        None \<Rightarrow> None
      | Some (b', hs) \<Rightarrow>
          (let (b'', ls) = verify_results b'
           in Some (b'', [StartingParallel, ParallelTime] @ ls)))"

subsection \<open>The two \<^verbatim>\<open>main\<close> functions\<close>

text \<open>
  What a run depends on besides its arguments: the standard library's parsing functions
  (\<open>Inl e\<close> when they throw \<open>e\<close>), \<^verbatim>\<open>std::thread::hardware_concurrency()\<close>, whether two
  (or three) vectors of a given length can be allocated, how many threads the system lets
  the process create, the random draws, whether the build defines \<^verbatim>\<open>GEM5\<close>, and the
  schedule of the workers.
\<close>

record 'a env =
  std_stoul :: "string \<Rightarrow> exn + nat"
  std_stoull :: "string \<Rightarrow> exn + nat"
  std_stoi :: "string \<Rightarrow> exn + int"
  std_stod :: "string \<Rightarrow> exn + 'a"
  hardware_concurrency :: nat
  can_allocate :: "nat \<Rightarrow> bool"
  max_threads :: nat
  random_draw :: "nat \<Rightarrow> 'a"
  gem5_defined :: bool
  schedule :: "nat list"

text \<open>
  How a run ends. \<open>Exit c\<close>: \<^verbatim>\<open>main\<close> returned \<open>c\<close>. \<open>Terminate e\<close>: the exception \<open>e\<close>
  left \<^verbatim>\<open>main\<close> (or a joinable \<^verbatim>\<open>std::thread\<close> was destroyed while \<open>e\<close> unwound the
  stack), so \<^verbatim>\<open>std::terminate\<close> ran and aborted the process: \<^verbatim>\<open>main\<close> returned no exit
  code, and nothing the program prints reports the error. \<open>Joining\<close>: the schedule ended
  while \<^verbatim>\<open>join\<close> was still waiting for a worker, so the run is not over.
\<close>

datatype outcome = Exit int | Terminate exn | Joining

text \<open>
  Driver 1, \<^verbatim>\<open>daxpy_benchmark.cpp\<close>. \<open>args\<close> is \<^verbatim>\<open>argv[1], \<dots>, argv[argc - 1]\<close>, so
  \<^verbatim>\<open>argc >= 2\<close> reads \<open>1 \<le> length args\<close>. The three conversions happen in this order and
  none is inside a \<^verbatim>\<open>try\<close> block.
\<close>

definition parse_args1 :: "'a::field env \<Rightarrow> string list \<Rightarrow> exn + nat \<times> nat \<times> 'a" where
  "parse_args1 env args =
     (case (if 1 \<le> length args then std_stoul env (args ! 0) else Inr 1000) of
        Inl e \<Rightarrow> Inl e
      | Inr n \<Rightarrow>
     (case (if 2 \<le> length args then std_stoul env (args ! 1) else Inr 1) of
        Inl e \<Rightarrow> Inl e
      | Inr t \<Rightarrow>
     (case (if 3 \<le> length args then std_stod env (args ! 2) else Inr (5 / 2)) of
        Inl e \<Rightarrow> Inl e
      | Inr a \<Rightarrow> Inr (n, t, a))))"

definition main1 :: "'a::field env \<Rightarrow> string list \<Rightarrow> 'a line list \<times> outcome" where
  "main1 env args =
     (case parse_args1 env args of
        Inl e \<Rightarrow> ([], Terminate e)
      | Inr (n, t, a) \<Rightarrow>
          (let out = [Banner n t a, StartingComputation]
           in if \<not> can_allocate env n then (out, Terminate BadAlloc)
              else
                (let benchmark = new_DaxpyBenchmark n t a
                 in if t > 1 then
                      (if max_threads env < t then (out, Terminate SystemError)
                       else
                         (case run_multithreaded (schedule env) benchmark of
                            None \<Rightarrow> (out, Joining)
                          | Some b \<Rightarrow>
                              (out @ [MultiThreadedTime, FirstResults (print_results b),
                                      BenchmarkCompleted], Exit 0)))
                    else
                      (let b = run_single_threaded benchmark
                       in (out @ [SingleThreadedTime, FirstResults (print_results b),
                                  BenchmarkCompleted], Exit 0)))))"

text \<open>
  Driver 2, \<^verbatim>\<open>multi_threaded_daxpy.cpp\<close>. \<^verbatim>\<open>argc != 4\<close> reads \<open>length args \<noteq> 3\<close>. The
  three conversions come before the \<^verbatim>\<open>try\<close> block, which encloses the constructor and
  \<^verbatim>\<open>run_parallel\<close>. In \<^verbatim>\<open>num_threads > hardware_concurrency()\<close> the left operand is positive
  when the comparison is evaluated, so its conversion to \<^verbatim>\<open>unsigned\<close> keeps its value. When
  thread creation fails after at least one worker exists, the vector of joinable threads is
  destroyed during unwinding and the process is terminated before the handler is reached.
\<close>

definition main2 :: "'a::linordered_field env \<Rightarrow> string list \<Rightarrow> 'a line list \<times> outcome" where
  "main2 env args =
     (if length args \<noteq> 3 then ([Usage], Exit 1)
      else
     (case std_stoull env (args ! 0) of
        Inl e \<Rightarrow> ([], Terminate e)
      | Inr n \<Rightarrow>
     (case std_stoi env (args ! 1) of
        Inl e \<Rightarrow> ([], Terminate e)
      | Inr t \<Rightarrow>
     (case std_stod env (args ! 2) of
        Inl e \<Rightarrow> ([], Terminate e)
      | Inr a \<Rightarrow>
          if t \<le> 0 \<or> int (hardware_concurrency env) < t
          then ([InvalidThreads (hardware_concurrency env)], Exit 1)
          else if n = 0 then ([ZeroVectorSize], Exit 1)
          else if \<not> can_allocate env n then ([ErrorLine BadAlloc], Exit 1)
          else
            (let benchmark = new_MultiThreadedDaxpy (random_draw env) n (nat t) a;
                 out = [Banner n (nat t) a]
             in if max_threads env = 0
                then (out @ [StartingParallel, ErrorLine SystemError], Exit 1)
                else if max_threads env < nat t then (out @ [StartingParallel], Terminate SystemError)
                else
                  (case run_parallel (gem5_defined env) (schedule env) benchmark of
                     None \<Rightarrow> (out @ [StartingParallel], Joining)
                   | Some (b, ls) \<Rightarrow> (out @ ls @ [CompletedSuccessfully], Exit 0)))))))"

text \<open>
  \<open>conversion_throws1\<close> and \<open>conversion_throws2\<close> say that one of the conversions a driver
  applies to its arguments throws. Driver 1 converts the arguments that are present, up to
  the third; driver 2 converts the three arguments once it has found exactly three. What
  makes a conversion throw is decided by the standard library, not by the drivers.
\<close>

definition conversion_throws1 :: "'a env \<Rightarrow> string list \<Rightarrow> bool" where
  "conversion_throws1 env args \<longleftrightarrow>
     (1 \<le> length args \<and> isl (std_stoul env (args ! 0)))
     \<or> (2 \<le> length args \<and> isl (std_stoul env (args ! 1)))
     \<or> (3 \<le> length args \<and> isl (std_stod env (args ! 2)))"

definition conversion_throws2 :: "'a env \<Rightarrow> string list \<Rightarrow> bool" where
  "conversion_throws2 env args \<longleftrightarrow>
     (1 \<le> length args \<and> isl (std_stoull env (args ! 0)))
     \<or> (2 \<le> length args \<and> isl (std_stoi env (args ! 1)))
     \<or> (3 \<le> length args \<and> isl (std_stod env (args ! 2)))"

subsection \<open>Models of the parsing functions for the concrete runs\<close>

text \<open>
  The general theorems hold for every \<open>env\<close>. The concrete runs need concrete parsing
  functions; these follow the description of \<^verbatim>\<open>std::stoul\<close>, \<^verbatim>\<open>std::stoull\<close>,
  \<^verbatim>\<open>std::stoi\<close> (base 10) and \<^verbatim>\<open>std::stod\<close>, which call \<^verbatim>\<open>strtoul\<close>, \<^verbatim>\<open>strtoull\<close>,
  \<^verbatim>\<open>strtol\<close> and \<^verbatim>\<open>strtod\<close>: leading white space is skipped, a sign is optional, the
  longest prefix that is a number is converted and what follows it is ignored;
  \<^verbatim>\<open>std::invalid_argument\<close> when there is no such prefix, \<^verbatim>\<open>std::out_of_range\<close> when the
  value does not fit the result type; a negative input of the unsigned conversions is
  negated modulo \<open>2^64\<close>.
\<close>

definition is_space :: "char \<Rightarrow> bool" where
  "is_space c \<longleftrightarrow> (of_char c :: nat) \<in> set [32, 9, 10, 11, 12, 13]"

definition digit_val :: "char \<Rightarrow> nat option" where
  "digit_val c = (let k = of_char c :: nat in if 48 \<le> k \<and> k \<le> 57 then Some (k - 48) else None)"

fun digits :: "string \<Rightarrow> nat list \<times> string" where
  "digits [] = ([], [])"
| "digits (c # cs) =
     (case digit_val c of
        None \<Rightarrow> ([], c # cs)
      | Some d \<Rightarrow> (let (ds, r) = digits cs in (d # ds, r)))"

definition dec_value :: "nat list \<Rightarrow> nat" where
  "dec_value ds = foldl (\<lambda>v d. 10 * v + d) 0 ds"

fun sign_of :: "string \<Rightarrow> bool \<times> string" where
  "sign_of [] = (False, [])"
| "sign_of (c # cs) =
     (if c = CHR ''-'' then (True, cs) else if c = CHR ''+'' then (False, cs) else (False, c # cs))"

definition stoul_model :: "string \<Rightarrow> exn + nat" where
  "stoul_model s =
     (let (neg, r) = sign_of (dropWhile is_space s);
          (ds, r') = digits r
      in if ds = [] then Inl InvalidArgument
         else if 2 ^ 64 \<le> dec_value ds then Inl OutOfRange
         else Inr (if neg then (2 ^ 64 - dec_value ds) mod 2 ^ 64 else dec_value ds))"

definition stoi_model :: "string \<Rightarrow> exn + int" where
  "stoi_model s =
     (let (neg, r) = sign_of (dropWhile is_space s);
          (ds, r') = digits r;
          v = (if neg then - int (dec_value ds) else int (dec_value ds))
      in if ds = [] then Inl InvalidArgument
         else if v < - (2 ^ 31) \<or> 2 ^ 31 \<le> v then Inl OutOfRange
         else Inr v)"

text \<open>
  \<open>stod_model\<close> reads a decimal number with optional fraction and decimal exponent, or a
  hexadecimal one (\<^verbatim>\<open>0x\<close>, hexadecimal digits, optional fraction and binary exponent after
  \<^verbatim>\<open>p\<close>), as the fraction \<open>num / den\<close> of two naturals. \<open>to_double\<close> then throws
  \<^verbatim>\<open>std::out_of_range\<close> when the magnitude is at least \<open>2^1024 - 2^970\<close>, from where
  rounding to \<^verbatim>\<open>double\<close> gives an infinity, and when the magnitude is below the least
  normal number \<open>2^-1022\<close> without being a multiple of \<open>2^-1074\<close> (an inexact tiny result,
  for which the C library sets \<^verbatim>\<open>ERANGE\<close>; the C standard leaves this case to the
  implementation); otherwise it returns the exact value. The texts \<^verbatim>\<open>inf\<close>, \<^verbatim>\<open>infinity\<close>
  and \<^verbatim>\<open>nan\<close>, which \<^verbatim>\<open>std::stod\<close> converts to values that an ordered field does not
  have, are outside the model: \<open>stod_model\<close> finds no number in them.
\<close>

definition hex_val :: "char \<Rightarrow> nat option" where
  "hex_val c =
     (let k = of_char c :: nat
      in if 48 \<le> k \<and> k \<le> 57 then Some (k - 48)
         else if 97 \<le> k \<and> k \<le> 102 then Some (k - 87)
         else if 65 \<le> k \<and> k \<le> 70 then Some (k - 55)
         else None)"

fun hex_digits :: "string \<Rightarrow> nat list \<times> string" where
  "hex_digits [] = ([], [])"
| "hex_digits (c # cs) =
     (case hex_val c of
        None \<Rightarrow> ([], c # cs)
      | Some d \<Rightarrow> (let (ds, r) = hex_digits cs in (d # ds, r)))"

definition hex_value :: "nat list \<Rightarrow> nat" where
  "hex_value ds = foldl (\<lambda>v d. 16 * v + d) 0 ds"

definition exponent_part :: "char \<Rightarrow> char \<Rightarrow> string \<Rightarrow> int" where
  "exponent_part lo up r =
     (case r of
        [] \<Rightarrow> 0
      | c # cs \<Rightarrow>
          if c = lo \<or> c = up then
            (let (neg, r') = sign_of cs;
                 (es, r'') = digits r'
             in if es = [] then 0
                else if neg then - int (dec_value es) else int (dec_value es))
          else 0)"

definition scaled :: "nat \<Rightarrow> nat \<Rightarrow> nat \<Rightarrow> int \<Rightarrow> nat \<times> nat" where
  "scaled m den base ex =
     (if 0 \<le> ex then (m * base ^ nat ex, den) else (m, den * base ^ nat (- ex)))"

definition to_double :: "bool \<Rightarrow> nat \<times> nat \<Rightarrow> exn + 'a::field" where
  "to_double neg q =
     (let num = fst q; den = snd q
      in if (2 ^ 1024 - 2 ^ 970) * den \<le> num then Inl OutOfRange
         else if 0 < num \<and> num * 2 ^ 1022 < den \<and> (num * 2 ^ 1074) mod den \<noteq> 0
           then Inl OutOfRange
         else Inr (if neg then - (of_nat num / of_nat den) else of_nat num / of_nat den))"

definition fraction_part :: "(string \<Rightarrow> nat list \<times> string) \<Rightarrow> string \<Rightarrow> nat list \<times> string" where
  "fraction_part ds r =
     (case r of
        [] \<Rightarrow> ([], [])
      | c # cs \<Rightarrow> if c = CHR ''.'' then ds cs else ([], r))"

definition stod_model :: "string \<Rightarrow> exn + 'a::field" where
  "stod_model s =
     (let (neg, r) = sign_of (dropWhile is_space s);
          (ih, h1) = hex_digits (drop 2 r);
          (fh, h2) = fraction_part hex_digits h1;
          (ip, r1) = digits r;
          (fp, r2) = fraction_part digits r1
      in if (take 2 r = ''0x'' \<or> take 2 r = ''0X'') \<and> (ih \<noteq> [] \<or> fh \<noteq> [])
         then to_double neg
                (scaled (hex_value (ih @ fh)) (16 ^ length fh) 2
                   (exponent_part (CHR ''p'') (CHR ''P'') h2))
         else if ip = [] \<and> fp = [] then Inl InvalidArgument
         else to_double neg
                (scaled (dec_value (ip @ fp)) (10 ^ length fp) 10
                   (exponent_part (CHR ''e'') (CHR ''E'') r2)))"

text \<open>
  The claim about malformed arguments speaks of an argument that is "not parseable as the
  expected number". For the vector size and the thread count, which a run needs as
  natural numbers, this reading is \<open>unsigned_text\<close>: the argument is a decimal numeral
  and nothing else. It follows the claim's words, not the conversions above, which accept
  any text that begins with a number.
\<close>

definition unsigned_text :: "string \<Rightarrow> bool" where
  "unsigned_text s \<longleftrightarrow> s \<noteq> [] \<and> list_all (\<lambda>c. digit_val c \<noteq> None) s"

text \<open>
  A machine with 8 hardware threads that can allocate vectors of up to \<open>2^20\<close> elements
  and create 64 threads, running a build without \<^verbatim>\<open>GEM5\<close> under the given schedule.
\<close>

definition example_env :: "nat list \<Rightarrow> real env" where
  "example_env sched =
     \<lparr>std_stoul = stoul_model, std_stoull = stoul_model, std_stoi = stoi_model,
      std_stod = stod_model, hardware_concurrency = 8, can_allocate = (\<lambda>n. n \<le> 2 ^ 20),
      max_threads = 64, random_draw = (\<lambda>k. 1 + of_nat (k mod 9)), gem5_defined = False,
      schedule = sched\<rparr>"

subsection \<open>Invariants of the workers\<close>

text \<open>
  \<open>written_upto s e p\<close> is the index below which a worker with range \<open>[s, e)\<close> at point
  \<open>p\<close> has stored its results. \<open>worker_ok\<close> relates the shared vector \<open>ys\<close> to its
  initial contents \<open>y0\<close> on the range of worker \<open>t\<close>: updated below that index, untouched
  from it on, and a value waiting to be stored is the updated value of its index.
  \<open>loop_inv\<close> states this for every worker.
\<close>

fun written_upto :: "nat \<Rightarrow> nat \<Rightarrow> 'a pc \<Rightarrow> nat" where
  "written_upto s e Arrive1 = s"
| "written_upto s e (Wait1 g) = s"
| "written_upto s e Hook1 = s"
| "written_upto s e (Loop i) = i"
| "written_upto s e (Store i v) = i"
| "written_upto s e Arrive2 = e"
| "written_upto s e (Wait2 g) = e"
| "written_upto s e Hook2 = e"
| "written_upto s e Done = e"

fun pending_ok :: "'a::{times,plus} \<Rightarrow> 'a list \<Rightarrow> 'a list \<Rightarrow> nat \<Rightarrow> 'a pc \<Rightarrow> bool" where
  "pending_ok a xs y0 e (Store i v) \<longleftrightarrow> i < e \<and> v = a * xs ! i + y0 ! i"
| "pending_ok a xs y0 e p \<longleftrightarrow> True"

definition worker_ok ::
  "'a::{times,plus} \<Rightarrow> 'a list \<Rightarrow> 'a list \<Rightarrow> nat \<Rightarrow> nat \<Rightarrow> 'a list \<Rightarrow> nat \<Rightarrow> 'a pc \<Rightarrow> bool" where
  "worker_ok a xs y0 N T ys t p \<longleftrightarrow>
     part_start N T t \<le> written_upto (part_start N T t) (part_end N T t) p
     \<and> written_upto (part_start N T t) (part_end N T t) p \<le> part_end N T t
     \<and> pending_ok a xs y0 (part_end N T t) p
     \<and> (\<forall>k. part_start N T t \<le> k
              \<and> k < written_upto (part_start N T t) (part_end N T t) p
            \<longrightarrow> ys ! k = a * xs ! k + y0 ! k)
     \<and> (\<forall>k. written_upto (part_start N T t) (part_end N T t) p \<le> k \<and> k < part_end N T t
            \<longrightarrow> ys ! k = y0 ! k)"

definition loop_inv ::
  "'a::{times,plus} \<Rightarrow> 'a list \<Rightarrow> 'a list \<Rightarrow> nat \<Rightarrow> nat \<Rightarrow> 'a cfg \<Rightarrow> bool" where
  "loop_inv a xs y0 N T c \<longleftrightarrow>
     length (pcs c) = T \<and> length (mem c) = N
     \<and> (\<forall>t<T. worker_ok a xs y0 N T (mem c) t (pcs c ! t))"

text \<open>
  For the unsynchronised workers: \<open>in_loop\<close> holds at the program points of
  \<^verbatim>\<open>daxpy_thread\<close>, and \<open>steps_left e p\<close> is the number of steps a worker with range end
  \<open>e\<close> at point \<open>p\<close> still takes before it returns. \<open>round_robin K T\<close> is the schedule that
  lets the workers \<open>0, \<dots>, T - 1\<close> take one step each, \<open>K\<close> times over.
\<close>

fun in_loop :: "'a pc \<Rightarrow> bool" where
  "in_loop (Loop i) = True"
| "in_loop (Store i v) = True"
| "in_loop Done = True"
| "in_loop p = False"

fun steps_left :: "nat \<Rightarrow> 'a pc \<Rightarrow> nat" where
  "steps_left e (Loop i) = 2 * (e - i) + 1"
| "steps_left e (Store i v) = 2 * (e - i)"
| "steps_left e p = 0"

definition round_robin :: "nat \<Rightarrow> nat \<Rightarrow> nat list" where
  "round_robin K T = concat (replicate K [0..<T])"

text \<open>
  For the barrier-gated workers: \<open>stage p\<close> orders the program points of
  \<^verbatim>\<open>thread_worker\<close> (0 before the first barrier, 1 waiting in it, 2 past it, 3 in the loop,
  4 before the second barrier, 5 waiting in it, 6 past it, 7 returned). \<open>barrier_inv\<close>
  ties the barrier to the program counters: in phase 0 every worker is before or in the
  first barrier, in phase 1 every worker has arrived at the first barrier and none is past
  the second, in phase 2 every worker has arrived at the second; the arrival count is the
  number of workers waiting in the current phase and stays below the number of parties.
  \<open>hooks_inv\<close> says what the statistics log holds, given where worker 0 is.
\<close>

fun stage :: "'a pc \<Rightarrow> nat" where
  "stage Arrive1 = 0"
| "stage (Wait1 g) = 1"
| "stage Hook1 = 2"
| "stage (Loop i) = 3"
| "stage (Store i v) = 3"
| "stage Arrive2 = 4"
| "stage (Wait2 g) = 5"
| "stage Hook2 = 6"
| "stage Done = 7"

definition barrier_inv :: "nat \<Rightarrow> 'a cfg \<Rightarrow> bool" where
  "barrier_inv T c \<longleftrightarrow>
     length (pcs c) = T \<and> expected (bar c) = T
     \<and> (phase (bar c) = 0
          \<and> (\<forall>p\<in>set (pcs c). p = Arrive1 \<or> p = Wait1 0)
          \<and> arrived (bar c) = count_list (pcs c) (Wait1 0) \<and> arrived (bar c) < T
        \<or> phase (bar c) = 1
          \<and> (\<forall>p\<in>set (pcs c). p = Wait1 0 \<or> 2 \<le> stage p \<and> stage p \<le> 4 \<or> p = Wait2 1)
          \<and> arrived (bar c) = count_list (pcs c) (Wait2 1) \<and> arrived (bar c) < T
        \<or> phase (bar c) = 2
          \<and> (\<forall>p\<in>set (pcs c). p = Wait2 1 \<or> p = Hook2 \<or> p = Done)
          \<and> arrived (bar c) = 0)"

definition hooks_inv :: "bool \<Rightarrow> 'a cfg \<Rightarrow> bool" where
  "hooks_inv gem5 c \<longleftrightarrow>
     hooks c = (if gem5 \<and> 3 \<le> stage (pcs c ! 0) then [(0, ResetStats)] else [])
               @ (if gem5 \<and> stage (pcs c ! 0) = 7 then [(0, DumpStats)] else [])"

text \<open>
  \<open>workers_after gem5 sched w\<close> is the configuration of the workers of \<open>w\<close> once the
  scheduler has followed \<open>sched\<close>. A worker is \<open>blocked\<close> while it waits in a barrier
  whose phase is not complete. \<open>gated_left s e p\<close> counts the steps that a barrier-gated
  worker with range \<open>[s, e)\<close> at point \<open>p\<close> still takes before it returns, and
  \<open>work_left\<close> adds them up over the workers.
\<close>

definition workers_after ::
  "bool \<Rightarrow> nat list \<Rightarrow> 'a::{times,plus} MultiThreadedDaxpy \<Rightarrow> 'a cfg" where
  "workers_after gem5 sched w =
     run_threads True gem5 (alpha w) (x_vec w) (vector_size w) (num_threads w) sched
       (launch_workers w)"

definition blocked :: "'a cfg \<Rightarrow> nat \<Rightarrow> bool" where
  "blocked c t \<longleftrightarrow>
     (case pcs c ! t of
        Wait1 g \<Rightarrow> phase (bar c) = g
      | Wait2 g \<Rightarrow> phase (bar c) = g
      | _ \<Rightarrow> False)"

fun gated_left :: "nat \<Rightarrow> nat \<Rightarrow> 'a pc \<Rightarrow> nat" where
  "gated_left s e Arrive1 = 2 * (e - s) + 7"
| "gated_left s e (Wait1 g) = 2 * (e - s) + 6"
| "gated_left s e Hook1 = 2 * (e - s) + 5"
| "gated_left s e (Loop i) = 2 * (e - i) + 4"
| "gated_left s e (Store i v) = 2 * (e - i) + 3"
| "gated_left s e Arrive2 = 3"
| "gated_left s e (Wait2 g) = 2"
| "gated_left s e Hook2 = 1"
| "gated_left s e Done = 0"

definition work_left :: "nat \<Rightarrow> nat \<Rightarrow> 'a cfg \<Rightarrow> nat" where
  "work_left N T c = (\<Sum>t<T. gated_left (part_start N T t) (part_end N T t) (pcs c ! t))"

subsection \<open>Concrete objects for the examples\<close>

text \<open>
  A \<^verbatim>\<open>MultiThreadedDaxpy\<close> object after its parallel phase, with \<open>N = 4\<close>, \<open>alpha = 2\<close>,
  \<open>x = [1, 2, 3, 4]\<close>, the snapshot \<open>y_original = [10, 20, 30, 40]\<close> and the given
  contents of \<^verbatim>\<open>y\<close>.
\<close>

definition verified_example :: "real list \<Rightarrow> real MultiThreadedDaxpy" where
  "verified_example ys =
     \<lparr>x_vec = [1, 2, 3, 4], y_vec = ys, vector_size = 4, num_threads = 4, alpha = 2,
      y_original = [10, 20, 30, 40], thread_barrier = \<lparr>expected = 4, arrived = 0, phase = 2\<rparr>\<rparr>"

text \<open>
  The objects of the specification's worked example, \<open>N = 4\<close>, \<open>alpha = 2\<close>,
  \<open>x = [1, 2, 3, 4]\<close>, \<open>y = [10, 20, 30, 40]\<close>, with \<open>T\<close> threads: one of each class.
\<close>

definition spec_example :: "nat \<Rightarrow> real DaxpyBenchmark" where
  "spec_example T =
     \<lparr>x_vec = [1, 2, 3, 4], y_vec = [10, 20, 30, 40], vector_size = 4, num_threads = T,
      alpha = 2\<rparr>"

definition spec_example2 :: "nat \<Rightarrow> real MultiThreadedDaxpy" where
  "spec_example2 T =
     \<lparr>x_vec = [1, 2, 3, 4], y_vec = [10, 20, 30, 40], vector_size = 4, num_threads = T,
      alpha = 2, y_original = [10, 20, 30, 40],
      thread_barrier = \<lparr>expected = T, arrived = 0, phase = 0\<rparr>\<rparr>"

text \<open>
  Two schedules for two unsynchronised workers with two elements each (five steps per
  worker): one runs worker 0 to its end before worker 1 starts, the other interleaves them.
\<close>

definition schedule_blocks :: "nat list" where
  "schedule_blocks = [0, 0, 0, 0, 0, 1, 1, 1, 1, 1]"

definition schedule_mixed :: "nat list" where
  "schedule_mixed = [1, 0, 1, 1, 0, 0, 1, 0, 1, 0]"

text \<open>
  A schedule for four barrier-gated workers with one element each: nine steps per worker.
  The workers arrive at the first barrier in one order and leave it in another.
\<close>

definition schedule_gated :: "nat list" where
  "schedule_gated =
     [0, 1, 2, 3, 3, 2, 1, 0, 0, 1, 2, 3, 0, 1, 2, 3, 0, 1, 2, 3, 0, 1, 2, 3, 0, 1, 2, 3,
      0, 1, 2, 3, 0, 1, 2, 3]"

section \<open>Properties of the partitioning\<close>

lemma worker_start_eq: "worker_start N T t = part_start N T t"
  by (simp add: worker_start_def part_start_def chunk_size_def)

lemma worker_end_eq: "worker_end N T t = part_end N T t"
  by (simp add: worker_end_def part_end_def worker_start_def chunk_size_def)

lemma worker_partitions_eq: "worker_partitions N T = partitions N T"
  by (simp add: worker_partitions_def partitions_def worker_start_eq worker_end_eq)

lemma chunk_mult_le:
  assumes "t \<le> T" and "0 < T"
  shows "t * chunk_size N T \<le> N"
proof -
  have "t * (N div T) \<le> T * (N div T)"
    using assms(1) by (rule mult_le_mono1)
  also have "\<dots> \<le> N"
    by (rule times_div_less_eq_dividend)
  finally show ?thesis
    by (simp add: chunk_size_def)
qed

lemma part_no_overflow:
  assumes "t < T"
  shows "part_start N T t \<le> N" and "(t + 1) * chunk_size N T \<le> N" and "part_end N T t \<le> N"
proof -
  from assms have T: "0 < T" and le: "t \<le> T" and le': "t + 1 \<le> T"
    by simp_all
  show "part_start N T t \<le> N"
    unfolding part_start_def using le T by (rule chunk_mult_le)
  show *: "(t + 1) * chunk_size N T \<le> N"
    using le' T by (rule chunk_mult_le)
  show "part_end N T t \<le> N"
    using * by (simp add: part_end_def)
qed

lemma part_start_le_end:
  assumes "t < T"
  shows "part_start N T t \<le> part_end N T t"
proof (cases "t = T - 1")
  case True
  then show ?thesis
    using part_no_overflow(1) [OF assms] by (simp add: part_end_def)
next
  case False
  then show ?thesis
    by (simp add: part_start_def part_end_def)
qed

lemma part_start_0: "part_start N T 0 = 0"
  by (simp add: part_start_def)

lemma part_end_last: "part_end N T (T - 1) = N"
  by (simp add: part_end_def)

lemma part_contiguous:
  assumes "Suc t < T"
  shows "part_start N T (Suc t) = part_end N T t"
proof -
  from assms have "t \<noteq> T - 1"
    by arith
  then show ?thesis
    by (simp add: part_start_def part_end_def)
qed

lemma part_end_mono:
  assumes "t < u" and "u < T"
  shows "part_end N T t \<le> part_start N T u"
proof -
  from assms have ne: "t \<noteq> T - 1" and le: "t + 1 \<le> u"
    by arith+
  from le have "(t + 1) * chunk_size N T \<le> u * chunk_size N T"
    by (rule mult_le_mono1)
  with ne show ?thesis
    by (simp add: part_start_def part_end_def)
qed

lemma part_disjoint:
  assumes "t < T" and "u < T" and "t \<noteq> u"
  shows "{part_start N T t..<part_end N T t} \<inter> {part_start N T u..<part_end N T u} = {}"
proof (cases "t < u")
  case True
  from part_end_mono [OF True assms(2), of N] show ?thesis
    by auto
next
  case False
  with assms(3) have "u < t"
    by simp
  from part_end_mono [OF this assms(1), of N] show ?thesis
    by auto
qed

text \<open>Every index below \<open>N\<close> lies in the range of some worker.\<close>

lemma part_cover_aux:
  assumes "k < part_end N T t" and "t < T"
  shows "\<exists>u\<le>t. part_start N T u \<le> k \<and> k < part_end N T u"
  using assms
proof (induction t)
  case 0
  then show ?case
    by (auto simp: part_start_0)
next
  case (Suc t)
  show ?case
  proof (cases "part_start N T (Suc t) \<le> k")
    case True
    with Suc.prems show ?thesis
      by blast
  next
    case False
    from Suc.prems have "Suc t < T"
      by simp
    with False have "k < part_end N T t"
      by (simp add: part_contiguous)
    with Suc.IH \<open>Suc t < T\<close> obtain u where "u \<le> t" "part_start N T u \<le> k" "k < part_end N T u"
      by auto
    then show ?thesis
      by (intro exI [of _ u]) simp
  qed
qed

lemma part_cover:
  assumes "k < N" and "0 < T"
  shows "\<exists>t<T. part_start N T t \<le> k \<and> k < part_end N T t"
proof -
  from assms have "k < part_end N T (T - 1)" and "T - 1 < T"
    by (simp_all add: part_end_def)
  then obtain u where "u \<le> T - 1" "part_start N T u \<le> k" "k < part_end N T u"
    using part_cover_aux by blast
  with assms(2) show ?thesis
    by (intro exI [of _ u]) simp
qed

lemma part_union:
  assumes "0 < T"
  shows "(\<Union>t<T. {part_start N T t..<part_end N T t}) = {0..<N}"
proof (rule set_eqI)
  fix k
  show "k \<in> (\<Union>t<T. {part_start N T t..<part_end N T t}) \<longleftrightarrow> k \<in> {0..<N}"
  proof
    assume "k \<in> (\<Union>t<T. {part_start N T t..<part_end N T t})"
    then obtain t where "t < T" "k < part_end N T t"
      by auto
    with part_no_overflow(3) [of t T N] show "k \<in> {0..<N}"
      by simp
  next
    assume "k \<in> {0..<N}"
    with part_cover [OF _ assms, of k N] show "k \<in> (\<Union>t<T. {part_start N T t..<part_end N T t})"
      by auto
  qed
qed

text \<open>
  Claim C2. For every vector length \<open>N\<close> and every thread count \<open>T \<ge> 1\<close> the launch loop
  produces exactly \<open>T\<close> half-open ranges; with \<open>chunk = N div T\<close>, range \<open>t\<close> starts at
  \<open>t * chunk\<close>, ends at \<open>(t + 1) * chunk\<close> for every \<open>t < T - 1\<close>, and the last one ends at
  \<open>N\<close>. The first range starts at 0, each range starts where the previous one ends, no
  range is reversed, the ranges are pairwise disjoint and their union is \<open>[0, N)\<close>. With
  \<open>T = 1\<close> the single range is \<open>[0, N)\<close>. The bounds each barrier-gated worker computes for
  itself are the same ranges. (\<open>N \<ge> 1\<close> is not needed.)
\<close>

theorem partitions_contiguous_cover:
  assumes "1 \<le> T"
  shows "length (partitions N T) = T
    \<and> (\<forall>t<T. fst (partitions N T ! t) = t * (N div T))
    \<and> (\<forall>t<T - 1. snd (partitions N T ! t) = (t + 1) * (N div T))
    \<and> snd (partitions N T ! (T - 1)) = N
    \<and> fst (partitions N T ! 0) = 0
    \<and> (\<forall>t. t + 1 < T \<longrightarrow> fst (partitions N T ! (t + 1)) = snd (partitions N T ! t))
    \<and> (\<forall>t<T. fst (partitions N T ! t) \<le> snd (partitions N T ! t))
    \<and> (\<forall>t<T. \<forall>u<T. t \<noteq> u \<longrightarrow>
          {fst (partitions N T ! t)..<snd (partitions N T ! t)}
            \<inter> {fst (partitions N T ! u)..<snd (partitions N T ! u)} = {})
    \<and> (\<Union>t<T. {fst (partitions N T ! t)..<snd (partitions N T ! t)}) = {0..<N}
    \<and> (T = 1 \<longrightarrow> partitions N T = [(0, N)])
    \<and> worker_partitions N T = partitions N T"
proof -
  from assms have T: "0 < T"
    by simp
  have nth: "partitions N T ! t = (part_start N T t, part_end N T t)" if "t < T" for t
    using that by (simp add: partitions_def)
  have 1: "length (partitions N T) = T"
    by (simp add: partitions_def)
  have 2: "\<forall>t<T. fst (partitions N T ! t) = t * (N div T)"
    by (simp add: nth part_start_def chunk_size_def)
  have 3: "\<forall>t<T - 1. snd (partitions N T ! t) = (t + 1) * (N div T)"
    by (simp add: nth part_end_def chunk_size_def)
  have 4: "snd (partitions N T ! (T - 1)) = N"
    using T by (simp add: nth part_end_def)
  have 5: "fst (partitions N T ! 0) = 0"
    using T by (simp add: nth part_start_0)
  have 6: "\<forall>t. t + 1 < T \<longrightarrow> fst (partitions N T ! (t + 1)) = snd (partitions N T ! t)"
    using part_contiguous by (simp add: nth)
  have 7: "\<forall>t<T. fst (partitions N T ! t) \<le> snd (partitions N T ! t)"
    using part_start_le_end by (simp add: nth)
  have 8: "\<forall>t<T. \<forall>u<T. t \<noteq> u \<longrightarrow>
          {fst (partitions N T ! t)..<snd (partitions N T ! t)}
            \<inter> {fst (partitions N T ! u)..<snd (partitions N T ! u)} = {}"
    using part_disjoint by (simp add: nth)
  have "(\<Union>t<T. {fst (partitions N T ! t)..<snd (partitions N T ! t)})
      = (\<Union>t<T. {part_start N T t..<part_end N T t})"
    by (rule SUP_cong) (simp_all add: nth)
  then have 9: "(\<Union>t<T. {fst (partitions N T ! t)..<snd (partitions N T ! t)}) = {0..<N}"
    using part_union [OF T] by simp
  have 10: "T = 1 \<longrightarrow> partitions N T = [(0, N)]"
    by (simp add: partitions_def part_start_def part_end_def)
  show ?thesis
    using 1 2 3 4 5 6 7 8 9 10 worker_partitions_eq by blast
qed

theorem partitions_contiguous_cover_witness:
  "(1::nat) \<le> 3 \<and> partitions 10 3 = [(0, 3), (3, 6), (6, 10)]
    \<and> length (partitions 10 3) = 3
    \<and> (\<Union>t<3. {fst (partitions 10 3 ! t)..<snd (partitions 10 3 ! t)}) = {0..<10}"
proof -
  have h: "(1::nat) \<le> 3"
    by simp
  have eq: "partitions 10 3 = [(0, 3), (3, 6), (6, 10)]"
    by (simp add: partitions_def part_start_def part_end_def chunk_size_def upt_rec)
  from partitions_contiguous_cover [OF h, of 10]
  have len: "length (partitions 10 3) = 3"
    and un: "(\<Union>t<3. {fst (partitions 10 3 ! t)..<snd (partitions 10 3 ! t)}) = {0..<10}"
    by blast+
  from h eq len un show ?thesis
    by (intro conjI)
qed

section \<open>The sequential kernel and the verifier\<close>

lemma daxpy_loop_length: "length (daxpy_loop a xs i e ys) = length ys"
  by (induction a xs i e ys rule: daxpy_loop.induct) (simp add: daxpy_loop.simps)

lemma daxpy_loop_nth:
  "e \<le> length ys \<Longrightarrow>
   daxpy_loop a xs i e ys ! k = (if i \<le> k \<and> k < e then a * xs ! k + ys ! k else ys ! k)"
proof (induction a xs i e ys rule: daxpy_loop.induct)
  case (1 a xs i e ys)
  show ?case
  proof (cases "i < e")
    case True
    with 1 show ?thesis
      by (subst daxpy_loop.simps) (auto simp: nth_list_update)
  next
    case False
    then show ?thesis
      by (subst daxpy_loop.simps) auto
  qed
qed

lemma std_max_eq: "std_max (a::'a::linorder) b = max a b"
  by (auto simp: std_max_def max_def)

lemma Max_insert_max:
  fixes m :: "'a::linorder"
  assumes "finite S"
  shows "Max (insert (max m e) S) = Max (insert m (insert e S))"
proof (cases "S = {}")
  case True
  then show ?thesis
    by (simp add: max.commute)
next
  case False
  with assms show ?thesis
    by (simp add: max.assoc)
qed

lemma compare_loop_eq:
  "compare_loop ps ys i n (c, m) =
     (c \<and> (\<forall>k. i \<le> k \<and> k < n \<longrightarrow> \<not> tolerance < \<bar>ps ! k - ys ! k\<bar>),
      Max (insert m ((\<lambda>k. \<bar>ps ! k - ys ! k\<bar>) ` {i..<n})))"
proof (induction "n - i" arbitrary: i c m)
  case 0
  then show ?case
    by (subst compare_loop.simps) simp
next
  case (Suc d)
  then have lt: "i < n" and d: "d = n - Suc i"
    by simp_all
  let ?e = "\<bar>ps ! i - ys ! i\<bar>"
  have split: "{i..<n} = insert i {Suc i..<n}"
    using lt by auto
  have ball: "(\<forall>k. i \<le> k \<and> k < n \<longrightarrow> P k) \<longleftrightarrow> P i \<and> (\<forall>k. Suc i \<le> k \<and> k < n \<longrightarrow> P k)" for P
  proof -
    have "i \<le> k \<longleftrightarrow> k = i \<or> Suc i \<le> k" for k
      by auto
    with lt show ?thesis
      by auto
  qed
  have "compare_loop ps ys i n (c, m) =
      compare_loop ps ys (Suc i) n (if tolerance < ?e then False else c, std_max m ?e)"
    using lt by (subst compare_loop.simps) (simp add: Let_def)
  also have "\<dots> = ((if tolerance < ?e then False else c)
        \<and> (\<forall>k. Suc i \<le> k \<and> k < n \<longrightarrow> \<not> tolerance < \<bar>ps ! k - ys ! k\<bar>),
      Max (insert (std_max m ?e) ((\<lambda>k. \<bar>ps ! k - ys ! k\<bar>) ` {Suc i..<n})))"
    by (rule Suc.hyps(1) [OF d])
  also have "\<dots> = (c \<and> (\<forall>k. i \<le> k \<and> k < n \<longrightarrow> \<not> tolerance < \<bar>ps ! k - ys ! k\<bar>),
      Max (insert m ((\<lambda>k. \<bar>ps ! k - ys ! k\<bar>) ` {i..<n})))"
    by (simp add: ball [of "\<lambda>k. \<not> tolerance < \<bar>ps ! k - ys ! k\<bar>"] split std_max_eq Max_insert_max)
  finally show ?case .
qed


lemma daxpy_loop_whole:
  assumes "length ys = n"
  shows "daxpy_loop a xs 0 n ys = map (\<lambda>i. a * xs ! i + ys ! i) [0..<n]"
proof (rule nth_equalityI)
  show "length (daxpy_loop a xs 0 n ys) = length (map (\<lambda>i. a * xs ! i + ys ! i) [0..<n])"
    using assms by (simp add: daxpy_loop_length)
next
  fix k
  assume "k < length (daxpy_loop a xs 0 n ys)"
  then have "k < n"
    using assms by (simp add: daxpy_loop_length)
  then show "daxpy_loop a xs 0 n ys ! k = map (\<lambda>i. a * xs ! i + ys ! i) [0..<n] ! k"
    using assms by (simp add: daxpy_loop_nth)
qed

lemma map_nth_take:
  assumes "n \<le> length ys"
  shows "map (\<lambda>i. ys ! i) [0..<n] = take n ys"
  using assms by (intro nth_equalityI) simp_all

lemma print_results_take:
  assumes "sized b"
  shows "print_results b = take (min 10 (vector_size b)) (y_vec b)"
  using assms by (simp add: print_results_def sized_def map_nth_take)

lemma verify_results_restores: "fst (verify_results b) = b"
  by (simp add: verify_results_def Let_def split: prod.splits)

lemma max_error_nonneg:
  fixes ps :: "'a::linordered_field list"
  assumes "0 < n"
  shows "Max (insert 0 ((\<lambda>k. \<bar>ps ! k - ys ! k\<bar>) ` {0..<n})) = max_abs_error ps ys n"
proof -
  let ?S = "(\<lambda>k. \<bar>ps ! k - ys ! k\<bar>) ` {0..<n}"
  have fin: "finite ?S" and ne: "?S \<noteq> {}"
    using assms by simp_all
  have "0 \<le> Max ?S"
    using fin ne by (subst Max_ge_iff) auto
  then have "Max (insert 0 ?S) = Max ?S"
    using fin ne by (simp add: max_absorb2)
  then show ?thesis
    by (simp add: max_abs_error_def)
qed

lemma tolerance_pos: "(0::'a::linordered_field) < tolerance"
  by (simp add: tolerance_def)

lemma all_le_Max_iff:
  fixes f :: "nat \<Rightarrow> 'a::linorder"
  assumes "0 < n"
  shows "(\<forall>k. 0 \<le> k \<and> k < n \<longrightarrow> \<not> t < f k) \<longleftrightarrow> Max (f ` {0..<n}) \<le> t"
proof -
  have "finite (f ` {0..<n})" and "f ` {0..<n} \<noteq> {}"
    using assms by simp_all
  then have "Max (f ` {0..<n}) \<le> t \<longleftrightarrow> (\<forall>v\<in>f ` {0..<n}. v \<le> t)"
    by (rule Max_le_iff)
  then show ?thesis
    by (auto simp: not_less)
qed

lemma verify_results_eq:
  fixes b :: "'a::linordered_field MultiThreadedDaxpy"
  assumes "length (y_original b) = vector_size b" and "0 < vector_size b"
  shows "verify_results b =
    (b, [Verification
           (max_abs_error (y_vec b) (sequential_result b) (vector_size b) \<le> 1 / 10 ^ 10)
           (max_abs_error (y_vec b) (sequential_result b) (vector_size b)),
         FirstResults (print_results b)])"
proof -
  let ?n = "vector_size b"
  let ?seq = "daxpy_loop (alpha b) (x_vec b) 0 ?n (y_original b)"
  have seq: "?seq = sequential_result b"
    using assms(1) by (simp add: daxpy_loop_whole sequential_result_def)
  have cmp: "compare_loop (y_vec b) (sequential_result b) 0 ?n (True, 0) =
      (max_abs_error (y_vec b) (sequential_result b) ?n \<le> tolerance,
       max_abs_error (y_vec b) (sequential_result b) ?n)"
    using all_le_Max_iff [OF assms(2), of tolerance "\<lambda>k. \<bar>y_vec b ! k - sequential_result b ! k\<bar>"]
    by (simp add: compare_loop_eq max_error_nonneg [OF assms(2)])
      (simp add: max_abs_error_def)
  show ?thesis
    by (simp add: verify_results_def Let_def seq cmp print_results_def tolerance_def)
qed


text \<open>
  Claim C4. Given the snapshot \<open>y_original\<close>, \<open>alpha\<close> and \<open>x\<close>, the verifier recomputes
  \<open>y_seq[i] = alpha * x[i] + y_orig[i]\<close> for all \<open>i\<close>; its verdict is PASS exactly when the
  maximum over \<open>i\<close> of \<open>|y_par[i] - y_seq[i]|\<close> is at most \<open>1e-10\<close>, and the error it
  reports is that maximum whatever the verdict. The object is one whose snapshot has
  \<^verbatim>\<open>vector_size\<close> elements, as the constructor leaves it, and \<^verbatim>\<open>vector_size > 0\<close>, as
  \<^verbatim>\<open>main\<close> has checked.
\<close>

theorem verify_results_verdict:
  fixes b :: "'a::linordered_field MultiThreadedDaxpy"
  assumes "length (y_original b) = vector_size b" and "0 < vector_size b"
  shows "verify_results b =
    (b, [Verification
           (max_abs_error (y_vec b) (sequential_result b) (vector_size b) \<le> 1 / 10 ^ 10)
           (max_abs_error (y_vec b) (sequential_result b) (vector_size b)),
         FirstResults (print_results b)])"
  using assms by (rule verify_results_eq)

text \<open>
  Claim C5. After the verification pass the object is exactly what it was before the pass:
  \<^verbatim>\<open>y\<close> holds the parallel result again, and the "First 10 results" line printed at the end
  of the pass lists the first \<open>min(10, N)\<close> elements of the parallel result, not of the
  sequential recomputation. In the example below the parallel result is deliberately
  different from the sequential one, and the printed values are the parallel ones.
\<close>

theorem verify_results_no_leak:
  assumes "sized b"
  shows "fst (verify_results b) = b
    \<and> (\<exists>correct max_error. snd (verify_results b) =
          [Verification correct max_error,
           FirstResults (take (min 10 (vector_size b)) (y_vec b))])"
proof -
  have "\<exists>correct max_error. snd (verify_results b) =
      [Verification correct max_error, FirstResults (print_results b)]"
    by (simp add: verify_results_def Let_def print_results_def split: prod.splits)
  then show ?thesis
    by (simp add: verify_results_restores print_results_take [OF assms])
qed

lemma seq_example: "sequential_result (verified_example ys) = [12, 24, 36, 48]"
  by (simp add: sequential_result_def verified_example_def upt_rec)

theorem verify_results_verdict_witness:
  "length (y_original (verified_example [12, 24, 36, 48])) = vector_size (verified_example [12, 24, 36, 48])
   \<and> 0 < vector_size (verified_example [12, 24, 36, 48])
   \<and> snd (verify_results (verified_example [12, 24, 36, 48])) =
       [Verification True 0, FirstResults [12, 24, 36, 48]]
   \<and> snd (verify_results (verified_example [12, 24, 36, 49])) =
       [Verification False 1, FirstResults [12, 24, 36, 49]]"
proof -
  have l: "length (y_original (verified_example ys)) = vector_size (verified_example ys)"
    and p: "0 < vector_size (verified_example ys)" for ys
    by (simp_all add: verified_example_def)
  have e1: "max_abs_error [12, 24, 36, 48] [12, 24, 36, 48] 4 = (0::real)"
    by code_simp
  have e2: "max_abs_error [12, 24, 36, 49] [12, 24, 36, 48] 4 = (1::real)"
    by code_simp
  have pr: "print_results (verified_example ys) = map (\<lambda>i. ys ! i) [0..<4]" for ys
    by (simp add: print_results_def verified_example_def)
  have v: "y_vec (verified_example ys) = ys" "vector_size (verified_example ys) = 4" for ys
    by (simp_all add: verified_example_def)
  show ?thesis
    using verify_results_verdict [OF l p, of "[12, 24, 36, 48]"]
      verify_results_verdict [OF l p, of "[12, 24, 36, 49]"]
    by (simp add: l p seq_example e1 e2 pr v upt_rec)
qed

theorem verify_results_no_leak_witness:
  "sized (verified_example [12, 24, 36, 49])
   \<and> sequential_result (verified_example [12, 24, 36, 49]) = [12, 24, 36, 48]
   \<and> y_vec (fst (verify_results (verified_example [12, 24, 36, 49]))) = [12, 24, 36, 49]
   \<and> snd (verify_results (verified_example [12, 24, 36, 49])) ! 1 = FirstResults [12, 24, 36, 49]"
proof -
  have s: "sized (verified_example [12, 24, 36, 49])"
    by (simp add: sized_def verified_example_def)
  have v: "y_vec (verified_example ys) = ys" "vector_size (verified_example ys) = 4" for ys
    by (simp_all add: verified_example_def)
  from verify_results_no_leak [OF s] show ?thesis
    using s by (auto simp: seq_example v)
qed

section \<open>Unfolding the parsing functions\<close>

lemmas parser_defs =
  stoul_model_def stoi_model_def stod_model_def exponent_part_def scaled_def to_double_def
  fraction_part_def hex_val_def hex_value_def digit_val_def is_space_def dec_value_def

section \<open>Workers under an arbitrary schedule\<close>

lemma worker_end_if: "(if gated then worker_end N T t else part_end N T t) = part_end N T t"
  by (simp add: worker_end_eq)

text \<open>A store into the range of one worker leaves the other workers' view unchanged.\<close>

lemma worker_ok_other:
  assumes ok: "worker_ok a xs y0 N T ys u p"
    and i: "part_start N T t \<le> i" "i < part_end N T t"
    and tu: "t < T" "u < T" "u \<noteq> t"
  shows "worker_ok a xs y0 N T (ys[i := v]) u p"
proof -
  let ?s = "part_start N T u" and ?e = "part_end N T u"
  let ?w = "written_upto ?s ?e p"
  from ok have sw: "?s \<le> ?w" and we: "?w \<le> ?e" and pend: "pending_ok a xs y0 ?e p"
    and lo: "\<And>k. ?s \<le> k \<Longrightarrow> k < ?w \<Longrightarrow> ys ! k = a * xs ! k + y0 ! k"
    and hi: "\<And>k. ?w \<le> k \<Longrightarrow> k < ?e \<Longrightarrow> ys ! k = y0 ! k"
    by (simp_all add: worker_ok_def)
  have "i \<notin> {?s..<?e}"
    using part_disjoint [OF tu(1) tu(2), of N] tu(3) i by auto
  then have same: "(ys[i := v]) ! k = ys ! k" if "?s \<le> k" "k < ?e" for k
    using that by (cases "k = i") auto
  have lo': "(ys[i := v]) ! k = a * xs ! k + y0 ! k" if "?s \<le> k" "k < ?w" for k
  proof -
    from that we have "k < ?e"
      by simp
    with that show ?thesis
      by (simp add: same lo)
  qed
  have hi': "(ys[i := v]) ! k = y0 ! k" if "?w \<le> k" "k < ?e" for k
  proof -
    from that sw have "?s \<le> k"
      by simp
    with that show ?thesis
      by (simp add: same hi)
  qed
  show ?thesis
    unfolding worker_ok_def using sw we pend lo' hi' by blast
qed

text \<open>The steps of a worker, one lemma per program point.\<close>

lemma step_outside:
  "\<not> tid < length (pcs c) \<Longrightarrow> worker_step gated gem5 a xs N T tid c = c"
  by (simp add: worker_step_def)

lemma step_Arrive1:
  "tid < length (pcs c) \<Longrightarrow> pcs c ! tid = Arrive1 \<Longrightarrow>
   worker_step gated gem5 a xs N T tid c =
     c\<lparr>bar := arrive (bar c), pcs := (pcs c)[tid := Wait1 (phase (bar c))]\<rparr>"
  by (simp add: worker_step_def)

lemma step_Wait1:
  "tid < length (pcs c) \<Longrightarrow> pcs c ! tid = Wait1 g \<Longrightarrow>
   worker_step gated gem5 a xs N T tid c =
     (if phase (bar c) = g then c else c\<lparr>pcs := (pcs c)[tid := Hook1]\<rparr>)"
  by (simp add: worker_step_def)

lemma step_Hook1:
  "tid < length (pcs c) \<Longrightarrow> pcs c ! tid = Hook1 \<Longrightarrow>
   worker_step gated gem5 a xs N T tid c =
     c\<lparr>hooks := (if tid = 0 \<and> gem5 then hooks c @ [(tid, ResetStats)] else hooks c),
       pcs := (pcs c)[tid := Loop (part_start N T tid)]\<rparr>"
  by (simp add: worker_step_def worker_start_eq)

lemma step_Loop:
  "tid < length (pcs c) \<Longrightarrow> pcs c ! tid = Loop i \<Longrightarrow>
   worker_step gated gem5 a xs N T tid c =
     (if i < part_end N T tid
      then c\<lparr>pcs := (pcs c)[tid := Store i (a * xs ! i + mem c ! i)]\<rparr>
      else c\<lparr>pcs := (pcs c)[tid := (if gated then Arrive2 else Done)]\<rparr>)"
  by (simp add: worker_step_def worker_end_eq)

lemma step_Store:
  "tid < length (pcs c) \<Longrightarrow> pcs c ! tid = Store i v \<Longrightarrow>
   worker_step gated gem5 a xs N T tid c =
     c\<lparr>mem := (mem c)[i := v], pcs := (pcs c)[tid := Loop (Suc i)]\<rparr>"
  by (simp add: worker_step_def)

lemma step_Arrive2:
  "tid < length (pcs c) \<Longrightarrow> pcs c ! tid = Arrive2 \<Longrightarrow>
   worker_step gated gem5 a xs N T tid c =
     c\<lparr>bar := arrive (bar c), pcs := (pcs c)[tid := Wait2 (phase (bar c))]\<rparr>"
  by (simp add: worker_step_def)

lemma step_Wait2:
  "tid < length (pcs c) \<Longrightarrow> pcs c ! tid = Wait2 g \<Longrightarrow>
   worker_step gated gem5 a xs N T tid c =
     (if phase (bar c) = g then c else c\<lparr>pcs := (pcs c)[tid := Hook2]\<rparr>)"
  by (simp add: worker_step_def)

lemma step_Hook2:
  "tid < length (pcs c) \<Longrightarrow> pcs c ! tid = Hook2 \<Longrightarrow>
   worker_step gated gem5 a xs N T tid c =
     c\<lparr>hooks := (if tid = 0 \<and> gem5 then hooks c @ [(tid, DumpStats)] else hooks c),
       pcs := (pcs c)[tid := Done]\<rparr>"
  by (simp add: worker_step_def)

lemma step_Done:
  "tid < length (pcs c) \<Longrightarrow> pcs c ! tid = Done \<Longrightarrow>
   worker_step gated gem5 a xs N T tid c = c"
  by (simp add: worker_step_def)

lemmas step_simps =
  step_Arrive1 step_Wait1 step_Hook1 step_Loop step_Store step_Arrive2 step_Wait2 step_Hook2
  step_Done

text \<open>
  What a step does to the vector and to the program counters: it either leaves the vector
  alone and moves the worker to a point with the same \<open>written_upto\<close>, or it is the
  store.
\<close>

lemma loop_inv_update_pc:
  assumes inv: "loop_inv a xs y0 N T c" and tid: "tid < T"
    and ok: "worker_ok a xs y0 N T (mem c) tid p"
  shows "loop_inv a xs y0 N T (c\<lparr>pcs := (pcs c)[tid := p]\<rparr>)"
  using assms by (auto simp: loop_inv_def nth_list_update)

lemma loop_inv_step:
  assumes inv: "loop_inv a xs y0 N T c"
  shows "loop_inv a xs y0 N T (worker_step gated gem5 a xs N T tid c)"
proof (cases "tid < length (pcs c)")
  case False
  with inv show ?thesis
    by (simp add: step_outside)
next
  case True
  from inv have len: "length (pcs c) = T" "length (mem c) = N"
    and all: "\<And>t. t < T \<Longrightarrow> worker_ok a xs y0 N T (mem c) t (pcs c ! t)"
    by (simp_all add: loop_inv_def)
  from True len have tid: "tid < T"
    by simp
  let ?s = "part_start N T tid" and ?e = "part_end N T tid"
  note ok = all [OF tid]
  have se: "?s \<le> ?e"
    using tid by (rule part_start_le_end)
  have eN: "?e \<le> N"
    using tid by (rule part_no_overflow(3))
  show ?thesis
  proof (cases "pcs c ! tid")
    case Arrive1
    have "worker_ok a xs y0 N T (mem c) tid (Wait1 (phase (bar c)))"
      using ok Arrive1 by (auto simp: worker_ok_def)
    from loop_inv_update_pc [OF inv tid this] show ?thesis
      by (simp add: step_Arrive1 [OF True Arrive1] loop_inv_def)
  next
    case (Wait1 g)
    have "worker_ok a xs y0 N T (mem c) tid Hook1"
      using ok Wait1 by (auto simp: worker_ok_def)
    from loop_inv_update_pc [OF inv tid this] inv show ?thesis
      by (simp add: step_Wait1 [OF True Wait1])
  next
    case Hook1
    have "worker_ok a xs y0 N T (mem c) tid (Loop ?s)"
      using ok Hook1 by (auto simp: worker_ok_def)
    from loop_inv_update_pc [OF inv tid this] show ?thesis
      by (simp add: step_Hook1 [OF True Hook1] loop_inv_def)
  next
    case (Loop i)
    show ?thesis
    proof (cases "i < ?e")
      case lt: True
      have "worker_ok a xs y0 N T (mem c) tid (Store i (a * xs ! i + mem c ! i))"
        using ok Loop lt by (auto simp: worker_ok_def)
      from loop_inv_update_pc [OF inv tid this] show ?thesis
        by (simp add: step_Loop [OF True Loop] lt)
    next
      case ge: False
      from ok Loop ge have "i = ?e"
        by (simp add: worker_ok_def)
      then have "worker_ok a xs y0 N T (mem c) tid (if gated then Arrive2 else Done)"
        using ok Loop by (auto simp: worker_ok_def)
      from loop_inv_update_pc [OF inv tid this] show ?thesis
        by (simp add: step_Loop [OF True Loop] ge)
    qed
  next
    case (Store i v)
    from ok Store have i: "?s \<le> i" "i < ?e" and v: "v = a * xs ! i + y0 ! i"
      and lo: "\<And>k. ?s \<le> k \<Longrightarrow> k < i \<Longrightarrow> mem c ! k = a * xs ! k + y0 ! k"
      and hi: "\<And>k. i \<le> k \<Longrightarrow> k < ?e \<Longrightarrow> mem c ! k = y0 ! k"
      by (simp_all add: worker_ok_def)
    from i eN len have iN: "i < length (mem c)"
      by simp
    let ?c' = "c\<lparr>mem := (mem c)[i := v], pcs := (pcs c)[tid := Loop (Suc i)]\<rparr>"
    have own: "worker_ok a xs y0 N T ((mem c)[i := v]) tid (Loop (Suc i))"
      unfolding worker_ok_def using i v lo hi iN
      by (auto simp: nth_list_update less_Suc_eq)
    have "worker_ok a xs y0 N T (mem ?c') t (pcs ?c' ! t)" if "t < T" for t
    proof (cases "t = tid")
      case True
      with own len tid show ?thesis
        by simp
    next
      case False
      from worker_ok_other [OF all [OF that] i tid that False, of v] False
      show ?thesis
        by simp
    qed
    then have "loop_inv a xs y0 N T ?c'"
      using len by (simp add: loop_inv_def)
    then show ?thesis
      by (simp add: step_Store [OF True Store])
  next
    case Arrive2
    have "worker_ok a xs y0 N T (mem c) tid (Wait2 (phase (bar c)))"
      using ok Arrive2 by (auto simp: worker_ok_def)
    from loop_inv_update_pc [OF inv tid this] show ?thesis
      by (simp add: step_Arrive2 [OF True Arrive2] loop_inv_def)
  next
    case (Wait2 g)
    have "worker_ok a xs y0 N T (mem c) tid Hook2"
      using ok Wait2 by (auto simp: worker_ok_def)
    from loop_inv_update_pc [OF inv tid this] inv show ?thesis
      by (simp add: step_Wait2 [OF True Wait2])
  next
    case Hook2
    have "worker_ok a xs y0 N T (mem c) tid Done"
      using ok Hook2 by (auto simp: worker_ok_def)
    from loop_inv_update_pc [OF inv tid this] show ?thesis
      by (simp add: step_Hook2 [OF True Hook2] loop_inv_def)
  next
    case Done
    with inv show ?thesis
      by (simp add: step_Done [OF True Done])
  qed
qed

lemma loop_inv_run:
  assumes "loop_inv a xs y0 N T c"
  shows "loop_inv a xs y0 N T (run_threads gated gem5 a xs N T sched c)"
  using assms unfolding run_threads_def
  by (induction sched arbitrary: c) (simp_all add: loop_inv_step)

text \<open>When every worker has returned, the whole vector is updated.\<close>

lemma is_done_iff: "is_done p \<longleftrightarrow> p = Done"
  by (cases p) simp_all

lemma loop_inv_done:
  assumes inv: "loop_inv a xs y0 N T c" and fin: "all_done c" and T: "0 < T"
  shows "mem c = map (\<lambda>i. a * xs ! i + y0 ! i) [0..<N]"
proof (rule nth_equalityI)
  from inv show "length (mem c) = length (map (\<lambda>i. a * xs ! i + y0 ! i) [0..<N])"
    by (simp add: loop_inv_def)
next
  fix k
  assume "k < length (mem c)"
  with inv have k: "k < N"
    by (simp add: loop_inv_def)
  from part_cover [OF k T] obtain t where t: "t < T" "part_start N T t \<le> k" "k < part_end N T t"
    by blast
  from inv t(1) have "pcs c ! t \<in> set (pcs c)" and ok: "worker_ok a xs y0 N T (mem c) t (pcs c ! t)"
    by (simp_all add: loop_inv_def)
  with fin have "pcs c ! t = Done"
    by (simp add: all_done_def list_all_iff is_done_iff)
  with ok t have "mem c ! k = a * xs ! k + y0 ! k"
    by (simp add: worker_ok_def)
  with k show "mem c ! k = map (\<lambda>i. a * xs ! i + y0 ! i) [0..<N] ! k"
    by simp
qed

lemma loop_inv_launch:
  assumes "sized b"
  shows "loop_inv (alpha b) (x_vec b) (y_vec b) (vector_size b) (num_threads b) (launch b)"
  using assms
  by (auto simp: loop_inv_def launch_def sized_def worker_ok_def part_start_le_end)

lemma loop_inv_launch_workers:
  assumes "sized b"
  shows "loop_inv (alpha b) (x_vec b) (y_vec b) (vector_size b) (num_threads b) (launch_workers b)"
  using assms
  by (auto simp: loop_inv_def launch_workers_def sized_def worker_ok_def part_start_le_end)

lemma run_single_threaded_result:
  assumes "sized b"
  shows "run_single_threaded b =
    b\<lparr>y_vec := map (\<lambda>i. alpha b * x_vec b ! i + y_vec b ! i) [0..<vector_size b]\<rparr>"
  using assms by (simp add: run_single_threaded_def daxpy_thread_def sized_def daxpy_loop_whole)

lemma run_multithreaded_result:
  assumes "sized b" and "0 < num_threads b" and "run_multithreaded sched b = Some b'"
  shows "b' = b\<lparr>y_vec := map (\<lambda>i. alpha b * x_vec b ! i + y_vec b ! i) [0..<vector_size b]\<rparr>"
proof -
  let ?c = "run_threads False False (alpha b) (x_vec b) (vector_size b) (num_threads b) sched
      (launch b)"
  from assms(3) have fin: "all_done ?c" and b': "b' = b\<lparr>y_vec := mem ?c\<rparr>"
    by (simp_all add: run_multithreaded_def Let_def split: if_splits)
  have "loop_inv (alpha b) (x_vec b) (y_vec b) (vector_size b) (num_threads b) ?c"
    using loop_inv_launch [OF assms(1)] by (rule loop_inv_run)
  from loop_inv_done [OF this fin assms(2)] b' show ?thesis
    by simp
qed

lemma parallel_phase_result:
  assumes "sized b" and "0 < num_threads b" and "parallel_phase gem5 sched b = Some (b', hs)"
  shows "y_vec b' = map (\<lambda>i. alpha b * x_vec b ! i + y_vec b ! i) [0..<vector_size b]"
    and "x_vec b' = x_vec b" and "alpha b' = alpha b" and "vector_size b' = vector_size b"
    and "num_threads b' = num_threads b" and "y_original b' = y_original b"
proof -
  let ?c = "run_threads True gem5 (alpha b) (x_vec b) (vector_size b) (num_threads b) sched
      (launch_workers b)"
  from assms(3) have fin: "all_done ?c"
    and b': "b' = b\<lparr>y_vec := mem ?c, thread_barrier := bar ?c\<rparr>"
    by (simp_all add: parallel_phase_def Let_def split: if_splits)
  have "loop_inv (alpha b) (x_vec b) (y_vec b) (vector_size b) (num_threads b) ?c"
    using loop_inv_launch_workers [OF assms(1)] by (rule loop_inv_run)
  from loop_inv_done [OF this fin assms(2)] b'
  show "y_vec b' = map (\<lambda>i. alpha b * x_vec b ! i + y_vec b ! i) [0..<vector_size b]"
    by simp
  from b' show "x_vec b' = x_vec b" and "alpha b' = alpha b" and "vector_size b' = vector_size b"
    and "num_threads b' = num_threads b" and "y_original b' = y_original b"
    by simp_all
qed





section \<open>Driver 1: construction and output\<close>

lemma init_loop_length:
  "length (fst (init_loop i n (xs, ys))) = length xs \<and> length (snd (init_loop i n (xs, ys))) = length ys"
proof (induction "n - i" arbitrary: i xs ys)
  case 0
  then show ?case
    by (subst (1 2) init_loop.simps) simp
next
  case (Suc d)
  then have "i < n" and "d = n - Suc i"
    by simp_all
  with Suc.hyps(1) [of "Suc i" "xs[i := of_nat (i + 1)]" "ys[i := of_nat (n - i)]"]
  show ?case
    by (subst (1 2) init_loop.simps) simp
qed

lemma init_loop_nth:
  assumes "n \<le> length xs" and "n \<le> length ys"
  shows "fst (init_loop i n (xs, ys)) ! k = (if i \<le> k \<and> k < n then of_nat (k + 1) else xs ! k)
    \<and> snd (init_loop i n (xs, ys)) ! k = (if i \<le> k \<and> k < n then of_nat (n - k) else ys ! k)"
  using assms
proof (induction "n - i" arbitrary: i xs ys)
  case 0
  then show ?case
    by (subst (1 2) init_loop.simps) auto
next
  case (Suc d)
  then have lt: "i < n" and d: "d = n - Suc i"
    by simp_all
  from Suc.prems have len: "n \<le> length (xs[i := of_nat (i + 1)])" "n \<le> length (ys[i := of_nat (n - i)])"
    by simp_all
  from Suc.hyps(1) [OF d len] lt Suc.prems
  show ?case
    by (subst (1 2) init_loop.simps) (auto simp: nth_list_update)
qed

lemma new_DaxpyBenchmark_eq:
  "new_DaxpyBenchmark n t a =
     \<lparr>x_vec = map (\<lambda>i. of_nat (i + 1)) [0..<n], y_vec = map (\<lambda>i. of_nat (n - i)) [0..<n],
      vector_size = n, num_threads = t, alpha = a\<rparr>"
proof -
  let ?r = "init_loop 0 n (replicate n (0::'a), replicate n (0::'a))"
  have len: "length (fst ?r) = n" "length (snd ?r) = n"
    using init_loop_length [of 0 n "replicate n (0::'a)" "replicate n (0::'a)"] by simp_all
  have nth: "fst ?r ! k = of_nat (k + 1)" "snd ?r ! k = of_nat (n - k)" if "k < n" for k
    using init_loop_nth [of n "replicate n (0::'a)" "replicate n (0::'a)" 0 k] that by simp_all
  have "fst ?r = map (\<lambda>i. of_nat (i + 1)) [0..<n]"
    by (rule nth_equalityI) (simp_all add: len nth)
  moreover have "snd ?r = map (\<lambda>i. of_nat (n - i)) [0..<n]"
    by (rule nth_equalityI) (simp_all add: len nth)
  ultimately have "?r = (map (\<lambda>i. of_nat (i + 1)) [0..<n], map (\<lambda>i. of_nat (n - i)) [0..<n])"
    by (simp add: prod_eq_iff)
  then show ?thesis
    by (simp add: new_DaxpyBenchmark_def)
qed

lemma new_DaxpyBenchmark_sized: "sized (new_DaxpyBenchmark n t a)"
  by (simp add: new_DaxpyBenchmark_eq sized_def)

lemma new_DaxpyBenchmark_updated:
  "map (\<lambda>i. alpha (new_DaxpyBenchmark n t a) * x_vec (new_DaxpyBenchmark n t a) ! i
        + y_vec (new_DaxpyBenchmark n t a) ! i) [0..<vector_size (new_DaxpyBenchmark n t a)]
   = map (\<lambda>i. a * of_nat (i + 1) + of_nat (n - i)) [0..<n]"
  by (simp add: new_DaxpyBenchmark_eq)

lemma print_results_updated:
  assumes "y_vec b = map f [0..<n]" and "vector_size b = n"
  shows "print_results b = map f [0..<min 10 n]"
  using assms by (simp add: print_results_def)

lemma main1_output:
  fixes env :: "'a::field env"
  assumes p: "parse_args1 env args = Inr (n, t, a)" and r: "main1 env args = (out, Exit 0)"
  shows "out = [Banner n t a, StartingComputation,
      if 1 < t then MultiThreadedTime else SingleThreadedTime,
      FirstResults (map (\<lambda>i. a * of_nat (i + 1) + of_nat (n - i)) [0..<min 10 n]),
      BenchmarkCompleted]"
proof (cases "1 < t")
  case True
  let ?b = "new_DaxpyBenchmark n t a"
  from r p True obtain b' where run: "run_multithreaded (schedule env) ?b = Some b'"
    and out: "out = [Banner n t a, StartingComputation, MultiThreadedTime,
        FirstResults (print_results b'), BenchmarkCompleted]"
    by (auto simp: main1_def Let_def split: if_splits option.splits)
  from True have "0 < num_threads ?b"
    by (simp add: new_DaxpyBenchmark_eq)
  from run_multithreaded_result [OF new_DaxpyBenchmark_sized this run]
  have "y_vec b' = map (\<lambda>i. a * of_nat (i + 1) + of_nat (n - i)) [0..<n]" "vector_size b' = n"
    by (simp_all add: new_DaxpyBenchmark_eq)
  from print_results_updated [OF this] out True show ?thesis
    by simp
next
  case False
  let ?b = "new_DaxpyBenchmark n t a"
  from r p False have out: "out = [Banner n t a, StartingComputation, SingleThreadedTime,
        FirstResults (print_results (run_single_threaded ?b)), BenchmarkCompleted]"
    by (auto simp: main1_def Let_def split: if_splits)
  have "y_vec (run_single_threaded ?b) = map (\<lambda>i. a * of_nat (i + 1) + of_nat (n - i)) [0..<n]"
    "vector_size (run_single_threaded ?b) = n"
    unfolding run_single_threaded_result [OF new_DaxpyBenchmark_sized]
    by (simp_all add: new_DaxpyBenchmark_eq)
  from print_results_updated [OF this] out False show ?thesis
    by simp
qed

lemma main1_Exit_0:
  assumes "snd (main1 env args) = Exit c"
  shows "c = 0" and "\<exists>n t a. parse_args1 env args = Inr (n, t, a)"
  using assms
  by (auto simp: main1_def Let_def split: sum.splits if_splits option.splits prod.splits)


text \<open>
  Claim C10. Driver 1 initialises its vectors deterministically: after construction
  \<open>x[i] = i + 1\<close> and \<open>y[i] = N - i\<close> for every \<open>i < N\<close>. Hence the vector computed for
  \<open>(vector_size, num_threads, alpha)\<close> is \<open>alpha * (i + 1) + (N - i)\<close> at every index, on
  the single-threaded path and under every schedule of the workers that lets them all
  return; the lines of a completed run, among them the first \<open>min(10, N)\<close> results, are
  a function of the three values alone; and two completed runs whose arguments convert to
  the same three values print the same lines, whatever their schedules and machines.
  (The elapsed-time lines carry a clock reading that is not part of the model.)
\<close>

theorem driver1_deterministic:
  fixes env env' :: "'a::field env"
  shows "(\<forall>i<n. x_vec (new_DaxpyBenchmark n t a) ! i = of_nat (i + 1)
            \<and> y_vec (new_DaxpyBenchmark n t a) ! i = of_nat (n - i))
    \<and> length (x_vec (new_DaxpyBenchmark n t a)) = n
    \<and> length (y_vec (new_DaxpyBenchmark n t a)) = n
    \<and> y_vec (run_single_threaded (new_DaxpyBenchmark n t a))
        = map (\<lambda>i. a * of_nat (i + 1) + of_nat (n - i)) [0..<n]
    \<and> (1 \<le> t \<and> run_multithreaded sched (new_DaxpyBenchmark n t a) = Some b \<longrightarrow>
          y_vec b = map (\<lambda>i. a * of_nat (i + 1) + of_nat (n - i)) [0..<n])
    \<and> (parse_args1 env args = Inr (n, t, a) \<and> main1 env args = (out, Exit 0) \<longrightarrow>
          out = [Banner n t a, StartingComputation,
                 if 1 < t then MultiThreadedTime else SingleThreadedTime,
                 FirstResults (map (\<lambda>i. a * of_nat (i + 1) + of_nat (n - i)) [0..<min 10 n]),
                 BenchmarkCompleted])
    \<and> (parse_args1 env args = parse_args1 env' args'
        \<and> snd (main1 env args) = Exit 0 \<and> snd (main1 env' args') = Exit 0 \<longrightarrow>
          main1 env args = main1 env' args')"
proof -
  let ?b = "new_DaxpyBenchmark n t a"
  have 1: "\<forall>i<n. x_vec ?b ! i = of_nat (i + 1) \<and> y_vec ?b ! i = of_nat (n - i)"
    and 2: "length (x_vec ?b) = n" and 3: "length (y_vec ?b) = n"
    by (simp_all add: new_DaxpyBenchmark_eq)
  have 4: "y_vec (run_single_threaded ?b) = map (\<lambda>i. a * of_nat (i + 1) + of_nat (n - i)) [0..<n]"
    unfolding run_single_threaded_result [OF new_DaxpyBenchmark_sized]
    by (simp add: new_DaxpyBenchmark_eq)
  have 5: "y_vec b = map (\<lambda>i. a * of_nat (i + 1) + of_nat (n - i)) [0..<n]"
    if "1 \<le> t" "run_multithreaded sched ?b = Some b"
  proof -
    from that(1) have "0 < num_threads ?b"
      by (simp add: new_DaxpyBenchmark_eq)
    from run_multithreaded_result [OF new_DaxpyBenchmark_sized this that(2)] show ?thesis
      by (simp add: new_DaxpyBenchmark_eq)
  qed
  have 6: "out = [Banner n t a, StartingComputation,
                 if 1 < t then MultiThreadedTime else SingleThreadedTime,
                 FirstResults (map (\<lambda>i. a * of_nat (i + 1) + of_nat (n - i)) [0..<min 10 n]),
                 BenchmarkCompleted]"
    if "parse_args1 env args = Inr (n, t, a)" "main1 env args = (out, Exit 0)"
    using that by (rule main1_output)
  have 7: "main1 env args = main1 env' args'"
    if eq: "parse_args1 env args = parse_args1 env' args'"
      and r: "snd (main1 env args) = Exit 0" and r': "snd (main1 env' args') = Exit 0"
  proof -
    from main1_Exit_0(2) [OF r] obtain m u c where p: "parse_args1 env args = Inr (m, u, c)"
      by blast
    with eq have p': "parse_args1 env' args' = Inr (m, u, c)"
      by simp
    from r have "main1 env args = (fst (main1 env args), Exit 0)"
      by (simp add: prod_eq_iff)
    from main1_output [OF p this] have o: "fst (main1 env args) = [Banner m u c, StartingComputation,
        if 1 < u then MultiThreadedTime else SingleThreadedTime,
        FirstResults (map (\<lambda>i. c * of_nat (i + 1) + of_nat (m - i)) [0..<min 10 m]),
        BenchmarkCompleted]" .
    from r' have "main1 env' args' = (fst (main1 env' args'), Exit 0)"
      by (simp add: prod_eq_iff)
    from main1_output [OF p' this] o r r' show ?thesis
      by (simp add: prod_eq_iff)
  qed
  from 1 2 3 4 5 6 7 show ?thesis
    by blast
qed

lemma example_env_simps:
  "std_stoul (example_env s) = stoul_model" "std_stoull (example_env s) = stoul_model"
  "std_stoi (example_env s) = stoi_model" "std_stod (example_env s) = stod_model"
  "hardware_concurrency (example_env s) = 8" "can_allocate (example_env s) n \<longleftrightarrow> n \<le> 2 ^ 20"
  "max_threads (example_env s) = 64" "gem5_defined (example_env s) = False"
  "schedule (example_env s) = s" "random_draw (example_env s) k = 1 + of_nat (k mod 9)"
  by (simp_all add: example_env_def)

lemmas run_defs =
  run_multithreaded_def run_threads_def worker_step_def launch_def part_start_def part_end_def
  chunk_size_def all_done_def

theorem driver1_deterministic_witness:
  "parse_args1 (example_env schedule_blocks) [''4'', ''2'', ''2''] = Inr (4, 2, 2)
   \<and> parse_args1 (example_env schedule_mixed) [''4'', ''2'', ''2''] = Inr (4, 2, 2)
   \<and> main1 (example_env schedule_blocks) [''4'', ''2'', ''2'']
       = ([Banner 4 2 2, StartingComputation, MultiThreadedTime, FirstResults [6, 7, 8, 9],
           BenchmarkCompleted], Exit 0)
   \<and> main1 (example_env schedule_mixed) [''4'', ''2'', ''2'']
       = main1 (example_env schedule_blocks) [''4'', ''2'', ''2'']"
proof -
  let ?e1 = "example_env schedule_blocks"
  let ?e2 = "example_env schedule_mixed"
  let ?args = "[''4'', ''2'', ''2'']"
  have p: "stoul_model ''4'' = Inr 4" "stoul_model ''2'' = Inr 2" "stod_model ''2'' = Inr (2::real)"
    by (simp_all add: parser_defs)
  have p1: "parse_args1 ?e1 ?args = Inr (4, 2, 2)" and p2: "parse_args1 ?e2 ?args = Inr (4, 2, 2)"
    by (simp_all add: parse_args1_def example_env_simps p)
  have b: "new_DaxpyBenchmark 4 2 (2::real)
      = \<lparr>x_vec = [1, 2, 3, 4], y_vec = [4, 3, 2, 1], vector_size = 4, num_threads = 2, alpha = 2\<rparr>"
    by (simp add: new_DaxpyBenchmark_eq upt_rec)
  have r1: "snd (main1 ?e1 ?args) = Exit 0"
    by (simp add: main1_def p1 example_env_simps b)
      (simp add: run_defs schedule_blocks_def upt_rec)
  have r2: "snd (main1 ?e2 ?args) = Exit 0"
    by (simp add: main1_def p2 example_env_simps b)
      (simp add: run_defs schedule_mixed_def upt_rec)
  have m1: "main1 ?e1 ?args = (fst (main1 ?e1 ?args), Exit 0)"
    using r1 by (simp add: prod_eq_iff)
  have pe: "parse_args1 ?e1 ?args = parse_args1 ?e2 ?args"
    using p1 p2 by simp
  note d = driver1_deterministic
    [of 4 2 2 "[]" undefined ?e1 ?args "fst (main1 ?e1 ?args)" ?e2 ?args]
  from d have "parse_args1 ?e1 ?args = parse_args1 ?e2 ?args
        \<and> snd (main1 ?e1 ?args) = Exit 0 \<and> snd (main1 ?e2 ?args) = Exit 0 \<longrightarrow>
      main1 ?e1 ?args = main1 ?e2 ?args"
    by (elim conjE)
  with pe r1 r2 have eq: "main1 ?e1 ?args = main1 ?e2 ?args"
    by (elim impE) (intro conjI)
  from d have "parse_args1 ?e1 ?args = Inr (4, 2, 2)
        \<and> main1 ?e1 ?args = (fst (main1 ?e1 ?args), Exit 0) \<longrightarrow>
      fst (main1 ?e1 ?args) = [Banner 4 2 2, StartingComputation,
        if 1 < (2::nat) then MultiThreadedTime else SingleThreadedTime,
        FirstResults (map (\<lambda>i. 2 * of_nat (i + 1) + of_nat (4 - i)) [0..<min 10 4]),
        BenchmarkCompleted]"
    by (elim conjE)
  with p1 m1 have "fst (main1 ?e1 ?args) = [Banner 4 2 2, StartingComputation,
        if 1 < (2::nat) then MultiThreadedTime else SingleThreadedTime,
        FirstResults (map (\<lambda>i. 2 * of_nat (i + 1) + of_nat (4 - i)) [0..<min 10 4]),
        BenchmarkCompleted]"
    by (elim impE) (intro conjI)
  then have "fst (main1 ?e1 ?args) = [Banner 4 2 2, StartingComputation, MultiThreadedTime,
      FirstResults [6, 7, 8, 9], BenchmarkCompleted]"
    by (simp add: upt_rec)
  with m1 eq p1 p2 show ?thesis
    by simp
qed

section \<open>Driver 1: completion and exit code\<close>

lemma free_step:
  assumes inv: "loop_inv a xs y0 N T c" and il: "\<And>t. t < T \<Longrightarrow> in_loop (pcs c ! t)"
    and u: "u < T"
  shows "in_loop (pcs (worker_step False gem5 a xs N T tid c) ! u)
    \<and> steps_left (part_end N T u) (pcs (worker_step False gem5 a xs N T tid c) ! u)
        = steps_left (part_end N T u) (pcs c ! u) - (if u = tid then 1 else 0)"
proof (cases "tid < length (pcs c)")
  case False
  with inv u have "u \<noteq> tid"
    by (auto simp: loop_inv_def)
  with False il [OF u] show ?thesis
    by (simp add: step_outside)
next
  case True
  from inv have len: "length (pcs c) = T"
    and all: "\<And>t. t < T \<Longrightarrow> worker_ok a xs y0 N T (mem c) t (pcs c ! t)"
    by (simp_all add: loop_inv_def)
  from True len have tid: "tid < T"
    by simp
  note ok = all [OF tid]
  show ?thesis
  proof (cases "u = tid")
    case False
    then have "pcs (worker_step False gem5 a xs N T tid c) ! u = pcs c ! u"
      by (cases "pcs c ! tid") (simp_all add: step_simps [OF True])
    with False il [OF u] show ?thesis
      by simp
  next
    case same: True
    from il [OF tid] show ?thesis
    proof (cases "pcs c ! tid")
      case (Loop i)
      with ok have "i \<le> part_end N T tid"
        by (simp add: worker_ok_def)
      with Loop same True show ?thesis
        by (auto simp: step_Loop [OF True Loop])
    next
      case (Store i v)
      with ok have "i < part_end N T tid"
        by (simp add: worker_ok_def)
      with Store same True show ?thesis
        by (auto simp: step_Store [OF True Store])
    next
      case Done
      with same True show ?thesis
        by (simp add: step_Done [OF True Done])
    qed simp_all
  qed
qed

lemma free_run:
  assumes "loop_inv a xs y0 N T c" and "\<And>t. t < T \<Longrightarrow> in_loop (pcs c ! t)" and "u < T"
  shows "in_loop (pcs (run_threads False gem5 a xs N T sched c) ! u)
    \<and> steps_left (part_end N T u) (pcs (run_threads False gem5 a xs N T sched c) ! u)
        = steps_left (part_end N T u) (pcs c ! u) - count_list sched u"
  using assms
proof (induction sched arbitrary: c)
  case Nil
  then show ?case
    by (simp add: run_threads_def)
next
  case (Cons tid sched)
  let ?c = "worker_step False gem5 a xs N T tid c"
  have inv': "loop_inv a xs y0 N T ?c"
    using Cons.prems(1) by (rule loop_inv_step)
  have il': "in_loop (pcs ?c ! t)" if "t < T" for t
    using free_step [OF Cons.prems(1) Cons.prems(2) that] by simp
  have st: "steps_left (part_end N T u) (pcs ?c ! u)
      = steps_left (part_end N T u) (pcs c ! u) - (if u = tid then 1 else 0)"
    using free_step [OF Cons.prems(1) Cons.prems(2) Cons.prems(3)] by simp
  have run: "run_threads False gem5 a xs N T (tid # sched) c = run_threads False gem5 a xs N T sched ?c"
    by (simp add: run_threads_def)
  from Cons.IH [OF inv' il' Cons.prems(3)] st show ?case
    unfolding run by auto
qed

lemma count_list_upt: "count_list [0..<T] u = (if u < T then 1 else 0)"
  by (induction T) auto

lemma count_list_round_robin: "count_list (round_robin K T) u = (if u < T then K else 0)"
  unfolding round_robin_def by (induction K) (simp_all add: count_list_upt)

lemma steps_left_0:
  assumes "in_loop p" and "pending_ok a xs y0 e p" and "steps_left e p = 0"
  shows "p = Done"
  using assms by (cases p) simp_all

lemma run_multithreaded_completes:
  assumes "sized b" and "2 * vector_size b + 1 \<le> K"
  shows "\<exists>b'. run_multithreaded (round_robin K (num_threads b)) b = Some b'"
proof -
  let ?N = "vector_size b" and ?T = "num_threads b"
  let ?c = "run_threads False False (alpha b) (x_vec b) ?N ?T (round_robin K ?T) (launch b)"
  have inv0: "loop_inv (alpha b) (x_vec b) (y_vec b) ?N ?T (launch b)"
    using assms(1) by (rule loop_inv_launch)
  then have inv: "loop_inv (alpha b) (x_vec b) (y_vec b) ?N ?T ?c"
    by (rule loop_inv_run)
  have il0: "in_loop (pcs (launch b) ! t)" if "t < ?T" for t
    using that by (simp add: launch_def)
  have "pcs ?c ! t = Done" if t: "t < ?T" for t
  proof -
    from free_run [OF inv0 il0 t, of False "round_robin K ?T"] t
    have il: "in_loop (pcs ?c ! t)"
      and st: "steps_left (part_end ?N ?T t) (pcs ?c ! t)
        = steps_left (part_end ?N ?T t) (pcs (launch b) ! t) - K"
      by (simp_all add: count_list_round_robin)
    have "steps_left (part_end ?N ?T t) (pcs (launch b) ! t) \<le> 2 * ?N + 1"
      using part_no_overflow(3) [OF t, of ?N] t by (simp add: launch_def)
    with st assms(2) have z: "steps_left (part_end ?N ?T t) (pcs ?c ! t) = 0"
      by simp
    from inv t have "pending_ok (alpha b) (x_vec b) (y_vec b) (part_end ?N ?T t) (pcs ?c ! t)"
      by (simp add: loop_inv_def worker_ok_def)
    from il this z show ?thesis
      by (rule steps_left_0)
  qed
  moreover from inv have "length (pcs ?c) = ?T"
    by (simp add: loop_inv_def)
  ultimately have "all_done ?c"
    by (auto simp: all_done_def list_all_length)
  then show ?thesis
    by (simp add: run_multithreaded_def Let_def)
qed


lemma parse_args1_schedule [simp]:
  "parse_args1 (env\<lparr>schedule := s\<rparr>) args = parse_args1 env args"
  by (auto simp: parse_args1_def split: sum.splits)

lemma parse_args1_throws: "isl (parse_args1 env args) \<longleftrightarrow> conversion_throws1 env args"
  by (auto simp: parse_args1_def conversion_throws1_def isl_def split: sum.splits)

lemma three_conversions:
  assumes "(case A of Inl e \<Rightarrow> Inl e
            | Inr n \<Rightarrow> (case B of Inl e \<Rightarrow> Inl e
                | Inr t \<Rightarrow> (case C of Inl e \<Rightarrow> Inl e | Inr a \<Rightarrow> Inr (n, t, a))))
           = Inr (n', t', a')"
  shows "A = Inr n'" and "B = Inr t'" and "C = Inr a'"
  using assms by (auto split: sum.splits)

lemma parse_args1_values:
  assumes "parse_args1 env args = Inr (n, t, a)"
  shows "(if 1 \<le> length args then std_stoul env (args ! 0) else Inr 1000) = Inr n"
    and "(if 2 \<le> length args then std_stoul env (args ! 1) else Inr 1) = Inr t"
    and "(if 3 \<le> length args then std_stod env (args ! 2) else Inr (5 / 2)) = Inr a"
  using assms unfolding parse_args1_def by (rule three_conversions)+

text \<open>
  Claim C8. Driver 1 takes up to three positional arguments, converted from left to right,
  with \<open>vector_size = 1000\<close>, \<open>num_threads = 1\<close> and \<open>alpha = 2.5\<close> for those that are
  omitted, and rejects no value: \<^verbatim>\<open>main\<close> returns no code other than 0. The process exits
  with code 0 whenever every argument it converts is well-formed, the vectors can be
  allocated and, for more than one thread, the workers can be created: the run is then
  either over with code 0 or still waiting in \<^verbatim>\<open>join\<close>, and under the round-robin schedule
  it is over. It does not exit with code 0 for every invocation: a conversion that throws
  (exactly when \<open>conversion_throws1\<close> holds), a failed allocation or a failed thread
  creation ends the process through the uncaught exception.
\<close>

theorem main1_exit_code:
  fixes env :: "'a::field env"
  shows "(parse_args1 env args = Inr (n, t, a) \<longrightarrow>
          (if 1 \<le> length args then std_stoul env (args ! 0) else Inr 1000) = Inr n
          \<and> (if 2 \<le> length args then std_stoul env (args ! 1) else Inr 1) = Inr t
          \<and> (if 3 \<le> length args then std_stod env (args ! 2) else Inr (5 / 2)) = Inr a)
    \<and> (isl (parse_args1 env args) \<longleftrightarrow> conversion_throws1 env args)
    \<and> (snd (main1 env args) = Exit c \<longrightarrow> c = 0)
    \<and> (parse_args1 env args = Inr (n, t, a) \<and> can_allocate env n
        \<and> (1 < t \<longrightarrow> t \<le> max_threads env) \<longrightarrow>
          (snd (main1 env args) = Exit 0 \<or> snd (main1 env args) = Joining)
          \<and> snd (main1 (env\<lparr>schedule := round_robin (2 * n + 1) t\<rparr>) args) = Exit 0)
    \<and> (parse_args1 env args = Inl e \<longrightarrow> main1 env args = ([], Terminate e))
    \<and> (parse_args1 env args = Inr (n, t, a)
        \<and> (\<not> can_allocate env n \<or> 1 < t \<and> max_threads env < t) \<longrightarrow>
          (\<exists>e. snd (main1 env args) = Terminate e))"
proof -
  have 1: "(if 1 \<le> length args then std_stoul env (args ! 0) else Inr 1000) = Inr n
      \<and> (if 2 \<le> length args then std_stoul env (args ! 1) else Inr 1) = Inr t
      \<and> (if 3 \<le> length args then std_stod env (args ! 2) else Inr (5 / 2)) = Inr a"
    if "parse_args1 env args = Inr (n, t, a)"
    using parse_args1_values [OF that] by blast
  have 2: "isl (parse_args1 env args) \<longleftrightarrow> conversion_throws1 env args"
    by (rule parse_args1_throws)
  have 3: "c = 0" if "snd (main1 env args) = Exit c"
    using that by (rule main1_Exit_0(1))
  have 4: "(snd (main1 env args) = Exit 0 \<or> snd (main1 env args) = Joining)
      \<and> snd (main1 (env\<lparr>schedule := round_robin (2 * n + 1) t\<rparr>) args) = Exit 0"
    if p: "parse_args1 env args = Inr (n, t, a)" and al: "can_allocate env n"
      and th: "1 < t \<longrightarrow> t \<le> max_threads env"
  proof -
    have a: "snd (main1 env args) = Exit 0 \<or> snd (main1 env args) = Joining"
      using p al th by (auto simp: main1_def Let_def split: option.splits)
    let ?b = "new_DaxpyBenchmark n t a"
    have "vector_size ?b = n" "num_threads ?b = t"
      by (simp_all add: new_DaxpyBenchmark_eq)
    with run_multithreaded_completes [OF new_DaxpyBenchmark_sized, of n t a "2 * n + 1"]
    obtain b' where "run_multithreaded (round_robin (2 * n + 1) t) ?b = Some b'"
      by auto
    with p al th have "snd (main1 (env\<lparr>schedule := round_robin (2 * n + 1) t\<rparr>) args) = Exit 0"
      by (auto simp: main1_def Let_def)
    with a show ?thesis
      by simp
  qed
  have 5: "main1 env args = ([], Terminate e)" if "parse_args1 env args = Inl e"
    using that by (simp add: main1_def)
  have 6: "\<exists>e. snd (main1 env args) = Terminate e"
    if "parse_args1 env args = Inr (n, t, a)"
      "\<not> can_allocate env n \<or> 1 < t \<and> max_threads env < t"
    using that by (auto simp: main1_def Let_def)
  from 1 2 3 4 5 6 show ?thesis
    by blast
qed

theorem main1_exit_code_witness:
  "parse_args1 (example_env []) [] = Inr (1000, 1, 5 / 2)
   \<and> can_allocate (example_env []) 1000
   \<and> snd (main1 (example_env []) []) = Exit 0
   \<and> parse_args1 (example_env schedule_mixed) [''4'', ''2''] = Inr (4, 2, 5 / 2)
   \<and> snd (main1 (example_env (round_robin 9 2)) [''4'', ''2'']) = Exit 0"
proof -
  have p0: "parse_args1 (example_env s) [] = Inr (1000, 1, 5 / 2)" for s
    by (simp add: parse_args1_def)
  have al: "can_allocate (example_env s) 1000" "can_allocate (example_env s) 4" for s
    by (simp_all add: example_env_simps)
  have th: "(1::nat) < 1 \<longrightarrow> 1 \<le> max_threads (example_env [])"
    "(1::nat) < 2 \<longrightarrow> 2 \<le> max_threads (example_env s)" for s
    by (simp_all add: example_env_simps)
  have p: "stoul_model ''4'' = Inr 4" "stoul_model ''2'' = Inr 2"
    by (simp_all add: parser_defs)
  have p2: "parse_args1 (example_env s) [''4'', ''2''] = Inr (4, 2, 5 / 2)" for s
    by (simp add: parse_args1_def example_env_simps p)
  have s: "(example_env s)\<lparr>schedule := s'\<rparr> = example_env s'" for s s'
    by (simp add: example_env_def)
  from main1_exit_code [of "example_env []" "[]" 1000 1 "5 / 2"] p0 [of "[]"] al(1) [of "[]"] th(1)
  have "snd (main1 (example_env []) []) = Exit 0 \<or> snd (main1 (example_env []) []) = Joining"
    by blast
  moreover have "snd (main1 (example_env []) []) \<noteq> Joining"
    by (simp add: main1_def p0 Let_def)
  ultimately have r0: "snd (main1 (example_env []) []) = Exit 0"
    by simp
  from main1_exit_code [of "example_env schedule_mixed" "[''4'', ''2'']" 4 2 "5 / 2"]
    p2 [of schedule_mixed] al(2) [of schedule_mixed] th(2) [of schedule_mixed]
  have "snd (main1 ((example_env schedule_mixed)\<lparr>schedule := round_robin (2 * 4 + 1) 2\<rparr>)
      [''4'', ''2'']) = Exit 0"
    by blast
  then have r2: "snd (main1 (example_env (round_robin 9 2)) [''4'', ''2'']) = Exit 0"
    by (simp add: s)
  from p0 [of "[]"] al(1) [of "[]"] r0 p2 [of schedule_mixed] r2 show ?thesis
    by (intro conjI)
qed

text \<open>The claim as the specification words it fails on an argument that is not a number.\<close>

theorem main1_exit_code_counterexample:
  "main1 (example_env []) [''ten''] = ([], Terminate InvalidArgument)
   \<and> snd (main1 (example_env []) [''ten'']) \<noteq> Exit 0"
proof -
  have "stoul_model ''ten'' = Inl InvalidArgument"
    by (simp add: parser_defs)
  then have "main1 (example_env []) [''ten''] = ([], Terminate InvalidArgument)"
    by (simp add: main1_def parse_args1_def example_env_simps)
  then show ?thesis
    by simp
qed

section \<open>Barrier-gated workers\<close>

lemma count_list_update:
  assumes "i < length xs"
  shows "count_list (xs[i := v]) a + (if xs ! i = a then 1 else 0)
    = count_list xs a + (if v = a then 1 else 0)"
  using assms
proof (induction xs arbitrary: i)
  case Nil
  then show ?case
    by simp
next
  case (Cons x xs)
  show ?case
  proof (cases i)
    case 0
    then show ?thesis
      by simp
  next
    case (Suc j)
    with Cons.prems have "j < length xs"
      by simp
    from Cons.IH [OF this] Suc show ?thesis
      by (auto split: if_splits)
  qed
qed

lemma count_list_full:
  assumes "count_list xs a = length xs"
  shows "\<forall>p\<in>set xs. p = a"
  using assms
proof (induction xs)
  case Nil
  then show ?case
    by simp
next
  case (Cons x xs)
  have "count_list xs a \<le> length xs"
    by (rule count_le_length)
  with Cons show ?case
    by (auto split: if_splits)
qed

lemma stage_step:
  assumes "t < length (pcs c)"
  shows "stage (pcs (worker_step True gem5 a xs N T tid c) ! t) = stage (pcs c ! t)
    \<or> stage (pcs (worker_step True gem5 a xs N T tid c) ! t) = Suc (stage (pcs c ! t))"
proof (cases "tid < length (pcs c)")
  case False
  then show ?thesis
    by (simp add: step_outside)
next
  case True
  show ?thesis
  proof (cases "t = tid")
    case False
    then have "pcs (worker_step True gem5 a xs N T tid c) ! t = pcs c ! t"
      by (cases "pcs c ! tid") (simp_all add: step_simps [OF True])
    then show ?thesis
      by simp
  next
    case same: True
    with True show ?thesis
      by (cases "pcs c ! tid") (simp_all add: step_simps [OF True])
  qed
qed

lemma barrier_inv_step:
  assumes inv: "barrier_inv T c"
  shows "barrier_inv T (worker_step True gem5 a xs N T tid c)"
proof (cases "tid < length (pcs c)")
  case False
  with inv show ?thesis
    by (simp add: step_outside)
next
  case tid: True
  let ?P = "pcs c"
  from inv have len: "length ?P = T" and ex: "expected (bar c) = T"
    by (simp_all add: barrier_inv_def)
  from tid len have T: "0 < T"
    by simp
  from tid have mem: "?P ! tid \<in> set ?P"
    by simp
  have upd: "\<forall>p\<in>set (?P[tid := q]). Q p" if "\<forall>p\<in>set ?P. Q p" "Q q" for Q q
    using that set_update_subset_insert [of ?P tid q] by auto
  have same: "count_list (?P[tid := q]) w = count_list ?P w" if "?P ! tid \<noteq> w" "q \<noteq> w" for q w
    using count_list_update [OF tid, of q w] that by simp
  have more: "count_list (?P[tid := w]) w = Suc (count_list ?P w)" if "?P ! tid \<noteq> w" for w
    using count_list_update [OF tid, of w w] that by simp
  have le: "count_list (?P[tid := q]) w \<le> T" for q w
    using count_le_length [of "?P[tid := q]" w] len by simp
  from inv consider
    (p0) "phase (bar c) = 0" "\<forall>p\<in>set ?P. p = Arrive1 \<or> p = Wait1 0"
      "arrived (bar c) = count_list ?P (Wait1 0)" "arrived (bar c) < T"
    | (p1) "phase (bar c) = 1"
      "\<forall>p\<in>set ?P. p = Wait1 0 \<or> 2 \<le> stage p \<and> stage p \<le> 4 \<or> p = Wait2 1"
      "arrived (bar c) = count_list ?P (Wait2 1)" "arrived (bar c) < T"
    | (p2) "phase (bar c) = 2" "\<forall>p\<in>set ?P. p = Wait2 1 \<or> p = Hook2 \<or> p = Done"
      "arrived (bar c) = 0"
    unfolding barrier_inv_def by (elim conjE disjE) blast+
  then show ?thesis
  proof cases
    case p0
    from p0(2) mem have "?P ! tid = Arrive1 \<or> ?P ! tid = Wait1 0"
      by blast
    then show ?thesis
    proof
      assume pc: "?P ! tid = Arrive1"
      let ?P' = "?P[tid := Wait1 0]"
      have c': "worker_step True gem5 a xs N T tid c = c\<lparr>bar := arrive (bar c), pcs := ?P'\<rparr>"
        using step_Arrive1 [OF tid pc] p0(1) by simp
      have cnt: "count_list ?P' (Wait1 0) = Suc (arrived (bar c))"
        using more [of "Wait1 0"] pc p0(3) by simp
      show ?thesis
      proof (cases "Suc (arrived (bar c)) = T")
        case True
        with cnt len have "count_list ?P' (Wait1 0) = length ?P'"
          by simp
        then have all: "\<forall>p\<in>set ?P'. p = Wait1 0"
          by (rule count_list_full)
        then have "Wait2 1 \<notin> set ?P'"
          by auto
        then have "count_list ?P' (Wait2 1) = 0"
          by (simp add: count_list_0_iff)
        with all True T len ex p0(1) show ?thesis
          unfolding c' barrier_inv_def arrive_def by simp
      next
        case False
        with cnt le [of "Wait1 0" "Wait1 0"] have "Suc (arrived (bar c)) < T"
          by simp
        moreover have "\<forall>p\<in>set ?P'. p = Arrive1 \<or> p = Wait1 0"
          using p0(2) by (rule upd) simp
        ultimately show ?thesis
          using False cnt len ex p0(1) unfolding c' barrier_inv_def arrive_def by simp
      qed
    next
      assume pc: "?P ! tid = Wait1 0"
      with inv p0(1) show ?thesis
        by (simp add: step_Wait1 [OF tid pc])
    qed
  next
    case p1
    have keep: "barrier_inv T c'"
      if "bar c' = bar c" "pcs c' = ?P[tid := q]" "2 \<le> stage q" "stage q \<le> 4" "?P ! tid \<noteq> Wait2 1"
      for c' :: "'a cfg" and q
    proof -
      have "\<forall>p\<in>set (?P[tid := q]). p = Wait1 0 \<or> 2 \<le> stage p \<and> stage p \<le> 4 \<or> p = Wait2 1"
        using p1(2) by (rule upd) (simp add: that)
      moreover have "count_list (?P[tid := q]) (Wait2 1) = count_list ?P (Wait2 1)"
        using that by (intro same) auto
      ultimately show ?thesis
        using that(1,2) p1 len ex unfolding barrier_inv_def by simp
    qed
    show ?thesis
    proof (cases "?P ! tid")
      case Arrive1
      with p1(2) mem show ?thesis
        by auto
    next
      case (Wait1 g)
      with p1(2) mem have g: "g = 0"
        by auto
      from Wait1 g p1(1) have "worker_step True gem5 a xs N T tid c = c\<lparr>pcs := ?P[tid := Hook1]\<rparr>"
        by (simp add: step_Wait1 [OF tid Wait1])
      moreover have "barrier_inv T (c\<lparr>pcs := ?P[tid := Hook1]\<rparr>)"
        using Wait1 by (intro keep [where q = Hook1]) simp_all
      ultimately show ?thesis
        by simp
    next
      case Hook1
      show ?thesis
        unfolding step_Hook1 [OF tid Hook1] using Hook1
        by (intro keep [where q = "Loop (part_start N T tid)"]) simp_all
    next
      case (Loop i)
      show ?thesis
      proof (cases "i < part_end N T tid")
        case True
        then show ?thesis
          unfolding step_Loop [OF tid Loop] using Loop
          by (simp, intro keep [where q = "Store i (a * xs ! i + mem c ! i)"]) simp_all
      next
        case False
        then show ?thesis
          unfolding step_Loop [OF tid Loop] using Loop
          by (simp, intro keep [where q = Arrive2]) simp_all
      qed
    next
      case (Store i v)
      show ?thesis
        unfolding step_Store [OF tid Store] using Store
        by (intro keep [where q = "Loop (Suc i)"]) simp_all
    next
      case Arrive2
      let ?P' = "?P[tid := Wait2 1]"
      have c': "worker_step True gem5 a xs N T tid c = c\<lparr>bar := arrive (bar c), pcs := ?P'\<rparr>"
        using step_Arrive2 [OF tid Arrive2] p1(1) by simp
      have cnt: "count_list ?P' (Wait2 1) = Suc (arrived (bar c))"
        using more [of "Wait2 1"] Arrive2 p1(3) by simp
      show ?thesis
      proof (cases "Suc (arrived (bar c)) = T")
        case True
        with cnt len have "count_list ?P' (Wait2 1) = length ?P'"
          by simp
        then have "\<forall>p\<in>set ?P'. p = Wait2 1"
          by (rule count_list_full)
        then have "\<forall>p\<in>set ?P'. p = Wait2 1 \<or> p = Hook2 \<or> p = Done"
          by blast
        with True len ex p1(1) show ?thesis
          unfolding c' barrier_inv_def arrive_def by simp
      next
        case False
        with cnt le [of "Wait2 1" "Wait2 1"] have "Suc (arrived (bar c)) < T"
          by simp
        moreover
        have "\<forall>p\<in>set ?P'. p = Wait1 0 \<or> 2 \<le> stage p \<and> stage p \<le> 4 \<or> p = Wait2 1"
          using p1(2) by (rule upd) simp
        ultimately show ?thesis
          using False cnt len ex p1(1) unfolding c' barrier_inv_def arrive_def by simp
      qed
    next
      case (Wait2 g)
      with p1(2) mem have "g = 1"
        by auto
      with inv p1(1) Wait2 show ?thesis
        by (simp add: step_Wait2 [OF tid Wait2])
    next
      case Hook2
      with p1(2) mem show ?thesis
        by auto
    next
      case Done
      with inv show ?thesis
        by (simp add: step_Done [OF tid Done])
    qed
  next
    case p2
    have keep: "barrier_inv T c'"
      if "bar c' = bar c" "pcs c' = ?P[tid := q]" "q = Hook2 \<or> q = Done"
      for c' :: "'a cfg" and q
    proof -
      have "\<forall>p\<in>set (?P[tid := q]). p = Wait2 1 \<or> p = Hook2 \<or> p = Done"
        using p2(2) by (rule upd) (use that in auto)
      then show ?thesis
        using that(1,2) p2 len ex unfolding barrier_inv_def by simp
    qed
    from p2(2) mem have "?P ! tid = Wait2 1 \<or> ?P ! tid = Hook2 \<or> ?P ! tid = Done"
      by blast
    then show ?thesis
    proof (elim disjE)
      assume pc: "?P ! tid = Wait2 1"
      from p2(1) have "worker_step True gem5 a xs N T tid c = c\<lparr>pcs := ?P[tid := Hook2]\<rparr>"
        by (simp add: step_Wait2 [OF tid pc])
      moreover have "barrier_inv T (c\<lparr>pcs := ?P[tid := Hook2]\<rparr>)"
        by (intro keep [where q = Hook2]) simp_all
      ultimately show ?thesis
        by simp
    next
      assume pc: "?P ! tid = Hook2"
      show ?thesis
        unfolding step_Hook2 [OF tid pc] by (intro keep [where q = Done]) simp_all
    next
      assume pc: "?P ! tid = Done"
      with inv show ?thesis
        by (simp add: step_Done [OF tid pc])
    qed
  qed
qed

lemma barrier_inv_run:
  assumes "barrier_inv T c"
  shows "barrier_inv T (run_threads True gem5 a xs N T sched c)"
  using assms unfolding run_threads_def
  by (induction sched arbitrary: c) (simp_all add: barrier_inv_step)

lemma barrier_inv_launch_workers:
  assumes "1 \<le> num_threads w"
    and "thread_barrier w = \<lparr>expected = num_threads w, arrived = 0, phase = 0\<rparr>"
  shows "barrier_inv (num_threads w) (launch_workers w)"
proof -
  have "Wait1 0 \<notin> set (pcs (launch_workers w))"
    by (auto simp: launch_workers_def)
  then have "count_list (pcs (launch_workers w)) (Wait1 0) = 0"
    by (simp add: count_list_0_iff)
  with assms show ?thesis
    unfolding barrier_inv_def by (auto simp: launch_workers_def)
qed

lemma barrier_inv_first:
  assumes inv: "barrier_inv T c" and t: "t < T" "2 \<le> stage (pcs c ! t)" and u: "u < T"
  shows "1 \<le> stage (pcs c ! u)"
proof -
  from inv t(1) u have mt: "pcs c ! t \<in> set (pcs c)" and mu: "pcs c ! u \<in> set (pcs c)"
    by (simp_all add: barrier_inv_def)
  from inv consider "\<forall>p\<in>set (pcs c). p = Arrive1 \<or> p = Wait1 0"
    | "\<forall>p\<in>set (pcs c). p = Wait1 0 \<or> 2 \<le> stage p \<and> stage p \<le> 4 \<or> p = Wait2 1"
    | "\<forall>p\<in>set (pcs c). p = Wait2 1 \<or> p = Hook2 \<or> p = Done"
    unfolding barrier_inv_def by (elim conjE disjE) blast+
  then show ?thesis
  proof cases
    case 1
    with mt t(2) show ?thesis
      by auto
  next
    case 2
    with mu show ?thesis
      by auto
  next
    case 3
    with mu show ?thesis
      by auto
  qed
qed

lemma barrier_inv_second:
  assumes inv: "barrier_inv T c" and t: "t < T" "6 \<le> stage (pcs c ! t)" and u: "u < T"
  shows "5 \<le> stage (pcs c ! u)"
proof -
  from inv t(1) u have mt: "pcs c ! t \<in> set (pcs c)" and mu: "pcs c ! u \<in> set (pcs c)"
    by (simp_all add: barrier_inv_def)
  from inv consider "\<forall>p\<in>set (pcs c). p = Arrive1 \<or> p = Wait1 0"
    | "\<forall>p\<in>set (pcs c). p = Wait1 0 \<or> 2 \<le> stage p \<and> stage p \<le> 4 \<or> p = Wait2 1"
    | "\<forall>p\<in>set (pcs c). p = Wait2 1 \<or> p = Hook2 \<or> p = Done"
    unfolding barrier_inv_def by (elim conjE disjE) blast+
  then show ?thesis
  proof cases
    case 1
    with mt t(2) show ?thesis
      by auto
  next
    case 2
    with mt t(2) show ?thesis
      by auto
  next
    case 3
    with mu show ?thesis
      by auto
  qed
qed

lemma hooks_inv_step:
  assumes inv: "hooks_inv gem5 c" and T: "0 < length (pcs c)"
  shows "hooks_inv gem5 (worker_step True gem5 a xs N T tid c)"
proof (cases "tid < length (pcs c)")
  case False
  with inv show ?thesis
    by (simp add: step_outside)
next
  case tid: True
  show ?thesis
  proof (cases "tid = 0")
    case False
    then have "hooks (worker_step True gem5 a xs N T tid c) = hooks c"
      and "pcs (worker_step True gem5 a xs N T tid c) ! 0 = pcs c ! 0"
      by (cases "pcs c ! tid"; simp add: step_simps [OF tid])+
    with inv show ?thesis
      by (simp add: hooks_inv_def)
  next
    case True
    show ?thesis
    proof (cases "pcs c ! tid")
      case Arrive1
      from inv True Arrive1 tid show ?thesis
        unfolding step_Arrive1 [OF tid Arrive1] by (auto simp: hooks_inv_def)
    next
      case (Wait1 g)
      from inv True Wait1 tid show ?thesis
        unfolding step_Wait1 [OF tid Wait1] by (auto simp: hooks_inv_def)
    next
      case Hook1
      from inv True Hook1 tid show ?thesis
        unfolding step_Hook1 [OF tid Hook1] by (auto simp: hooks_inv_def)
    next
      case (Loop i)
      from inv True Loop tid show ?thesis
        unfolding step_Loop [OF tid Loop] by (auto simp: hooks_inv_def)
    next
      case (Store i v)
      from inv True Store tid show ?thesis
        unfolding step_Store [OF tid Store] by (auto simp: hooks_inv_def)
    next
      case Arrive2
      from inv True Arrive2 tid show ?thesis
        unfolding step_Arrive2 [OF tid Arrive2] by (auto simp: hooks_inv_def)
    next
      case (Wait2 g)
      from inv True Wait2 tid show ?thesis
        unfolding step_Wait2 [OF tid Wait2] by (auto simp: hooks_inv_def)
    next
      case Hook2
      from inv True Hook2 tid show ?thesis
        unfolding step_Hook2 [OF tid Hook2] by (auto simp: hooks_inv_def)
    next
      case Done
      from inv True Done tid show ?thesis
        unfolding step_Done [OF tid Done] by (auto simp: hooks_inv_def)
    qed
  qed
qed

lemma length_pcs_step: "length (pcs (worker_step gated gem5 a xs N T tid c)) = length (pcs c)"
proof (cases "tid < length (pcs c)")
  case False
  then show ?thesis
    by (simp add: step_outside)
next
  case True
  then show ?thesis
    by (cases "pcs c ! tid") (simp_all add: step_simps [OF True])
qed

lemma hooks_inv_run:
  assumes "hooks_inv gem5 c" and "0 < length (pcs c)"
  shows "hooks_inv gem5 (run_threads True gem5 a xs N T sched c)"
  using assms
proof (induction sched arbitrary: c)
  case Nil
  then show ?case
    by (simp add: run_threads_def)
next
  case (Cons tid sched)
  let ?c = "worker_step True gem5 a xs N T tid c"
  have "hooks_inv gem5 ?c"
    using Cons.prems by (rule hooks_inv_step)
  moreover have "0 < length (pcs ?c)"
    using Cons.prems(2) by (simp only: length_pcs_step)
  ultimately have "hooks_inv gem5 (run_threads True gem5 a xs N T sched ?c)"
    by (rule Cons.IH)
  then show ?case
    by (simp add: run_threads_def)
qed

lemma hooks_inv_launch_workers:
  assumes "1 \<le> num_threads w"
  shows "hooks_inv gem5 (launch_workers w)" and "0 < length (pcs (launch_workers w))"
  using assms by (simp_all add: hooks_inv_def launch_workers_def)

lemma pcs_step_other:
  assumes "t \<noteq> tid"
  shows "pcs (worker_step gated gem5 a xs N T tid c) ! t = pcs c ! t"
proof (cases "tid < length (pcs c)")
  case False
  then show ?thesis
    by (simp add: step_outside)
next
  case True
  with assms show ?thesis
    by (cases "pcs c ! tid") (simp_all add: step_simps [OF True])
qed

lemma gated_step_own:
  assumes inv: "loop_inv a xs y0 N T c" and tid: "tid < T"
    and en: "\<not> blocked c tid" and nd: "pcs c ! tid \<noteq> Done"
  shows "Suc (gated_left (part_start N T tid) (part_end N T tid)
            (pcs (worker_step True gem5 a xs N T tid c) ! tid))
    = gated_left (part_start N T tid) (part_end N T tid) (pcs c ! tid)"
proof -
  from inv tid have len: "tid < length (pcs c)"
    and ok: "worker_ok a xs y0 N T (mem c) tid (pcs c ! tid)"
    by (simp_all add: loop_inv_def)
  show ?thesis
  proof (cases "pcs c ! tid")
    case Arrive1
    with len show ?thesis
      by (simp add: step_Arrive1 [OF len Arrive1])
  next
    case (Wait1 g)
    with en len show ?thesis
      by (simp add: step_Wait1 [OF len Wait1] blocked_def)
  next
    case Hook1
    with len show ?thesis
      by (simp add: step_Hook1 [OF len Hook1])
  next
    case (Loop i)
    with len show ?thesis
      by (simp add: step_Loop [OF len Loop])
  next
    case (Store i v)
    with ok have "i < part_end N T tid"
      by (simp add: worker_ok_def)
    with Store len show ?thesis
      by (simp add: step_Store [OF len Store] Suc_diff_Suc)
  next
    case Arrive2
    with len show ?thesis
      by (simp add: step_Arrive2 [OF len Arrive2])
  next
    case (Wait2 g)
    with en len show ?thesis
      by (simp add: step_Wait2 [OF len Wait2] blocked_def)
  next
    case Hook2
    with len show ?thesis
      by (simp add: step_Hook2 [OF len Hook2])
  next
    case Done
    with nd show ?thesis
      by simp
  qed
qed

lemma work_left_step:
  assumes inv: "loop_inv a xs y0 N T c" and tid: "tid < T"
    and en: "\<not> blocked c tid" and nd: "pcs c ! tid \<noteq> Done"
  shows "Suc (work_left N T (worker_step True gem5 a xs N T tid c)) = work_left N T c"
proof -
  let ?c = "worker_step True gem5 a xs N T tid c"
  let ?g = "\<lambda>c t. gated_left (part_start N T t) (part_end N T t) (pcs c ! t)"
  have fin: "finite {..<T}" and mem: "tid \<in> {..<T}"
    using tid by simp_all
  have rest: "(\<Sum>t\<in>{..<T} - {tid}. ?g ?c t) = (\<Sum>t\<in>{..<T} - {tid}. ?g c t)"
    by (rule sum.cong) (simp_all add: pcs_step_other)
  have "work_left N T c = ?g c tid + (\<Sum>t\<in>{..<T} - {tid}. ?g c t)"
    unfolding work_left_def using fin mem by (rule sum.remove)
  moreover have "work_left N T ?c = ?g ?c tid + (\<Sum>t\<in>{..<T} - {tid}. ?g ?c t)"
    unfolding work_left_def using fin mem by (rule sum.remove)
  moreover have "Suc (?g ?c tid) = ?g c tid"
    using inv tid en nd by (rule gated_step_own)
  ultimately show ?thesis
    using rest by simp
qed

lemma gated_progress:
  assumes inv: "barrier_inv T c" and nd: "\<not> all_done c"
  shows "\<exists>tid<T. \<not> blocked c tid \<and> pcs c ! tid \<noteq> Done"
proof -
  from inv have len: "length (pcs c) = T"
    by (simp add: barrier_inv_def)
  have pick: "\<exists>tid<T. pcs c ! tid \<noteq> w" if "count_list (pcs c) w < T" for w
  proof (rule ccontr)
    assume "\<not> (\<exists>tid<T. pcs c ! tid \<noteq> w)"
    with len have "\<forall>p\<in>set (pcs c). p = w"
      by (auto simp: in_set_conv_nth)
    then have "filter ((=) w) (pcs c) = pcs c"
      by (auto simp: filter_id_conv)
    then have "count_list (pcs c) w = length (pcs c)"
      by (simp add: count_list_eq_length_filter)
    with that len show False
      by simp
  qed
  have nth: "pcs c ! t \<in> set (pcs c)" if "t < T" for t
    using that len by simp
  from inv consider
    (p0) "phase (bar c) = 0" "\<forall>p\<in>set (pcs c). p = Arrive1 \<or> p = Wait1 0"
      "count_list (pcs c) (Wait1 0) < T"
    | (p1) "phase (bar c) = 1"
      "\<forall>p\<in>set (pcs c). p = Wait1 0 \<or> 2 \<le> stage p \<and> stage p \<le> 4 \<or> p = Wait2 1"
      "count_list (pcs c) (Wait2 1) < T"
    | (p2) "phase (bar c) = 2" "\<forall>p\<in>set (pcs c). p = Wait2 1 \<or> p = Hook2 \<or> p = Done"
    unfolding barrier_inv_def by (elim conjE disjE) simp_all
  then show ?thesis
  proof cases
    case p0
    from pick [OF p0(3)] obtain tid where tid: "tid < T" "pcs c ! tid \<noteq> Wait1 0"
      by blast
    with p0(2) nth have "pcs c ! tid = Arrive1"
      by blast
    with tid(1) show ?thesis
      by (auto simp: blocked_def)
  next
    case p1
    from pick [OF p1(3)] obtain tid where tid: "tid < T" "pcs c ! tid \<noteq> Wait2 1"
      by blast
    with p1(2) nth have "pcs c ! tid = Wait1 0 \<or> 2 \<le> stage (pcs c ! tid) \<and> stage (pcs c ! tid) \<le> 4"
      by blast
    then have "\<not> blocked c tid \<and> pcs c ! tid \<noteq> Done"
      using p1(1) by (cases "pcs c ! tid") (auto simp: blocked_def)
    with tid(1) show ?thesis
      by blast
  next
    case p2
    from nd len obtain tid where tid: "tid < T" "pcs c ! tid \<noteq> Done"
      by (auto simp: all_done_def list_all_length is_done_iff)
    with p2(2) nth have "pcs c ! tid = Wait2 1 \<or> pcs c ! tid = Hook2"
      by blast
    then have "\<not> blocked c tid"
      using p2(1) by (auto simp: blocked_def)
    with tid show ?thesis
      by blast
  qed
qed

lemma gated_can_finish:
  assumes "loop_inv a xs y0 N T c" and "barrier_inv T c"
  shows "\<exists>sched. all_done (run_threads True gem5 a xs N T sched c)"
  using assms
proof (induction "work_left N T c" arbitrary: c rule: less_induct)
  case less
  show ?case
  proof (cases "all_done c")
    case True
    then have "all_done (run_threads True gem5 a xs N T [] c)"
      by (simp add: run_threads_def)
    then show ?thesis ..
  next
    case False
    with less.prems(2) obtain tid where tid: "tid < T" "\<not> blocked c tid" "pcs c ! tid \<noteq> Done"
      using gated_progress by blast
    let ?c = "worker_step True gem5 a xs N T tid c"
    from work_left_step [OF less.prems(1) tid, of gem5] have "work_left N T ?c < work_left N T c"
      by simp
    moreover have "loop_inv a xs y0 N T ?c"
      using less.prems(1) by (rule loop_inv_step)
    moreover have "barrier_inv T ?c"
      using less.prems(2) by (rule barrier_inv_step)
    ultimately obtain sched where "all_done (run_threads True gem5 a xs N T sched ?c)"
      using less.hyps by blast
    then have "all_done (run_threads True gem5 a xs N T (tid # sched) c)"
      by (simp add: run_threads_def)
    then show ?thesis ..
  qed
qed


lemma workers_after_append:
  "workers_after gem5 (sched @ rest) w =
     run_threads True gem5 (alpha w) (x_vec w) (vector_size w) (num_threads w) rest
       (workers_after gem5 sched w)"
  by (simp add: workers_after_def run_threads_def)

lemma parallel_phase_workers_after:
  "parallel_phase gem5 sched w =
     (if all_done (workers_after gem5 sched w)
      then Some (w\<lparr>y_vec := mem (workers_after gem5 sched w),
                   thread_barrier := bar (workers_after gem5 sched w)\<rparr>,
                 hooks (workers_after gem5 sched w))
      else None)"
  by (simp add: parallel_phase_def workers_after_def Let_def)

text \<open>
  Claim C9. In the barrier-gated mode of driver 2, with \<open>T \<ge> 1\<close> workers and the barrier
  as the constructor leaves it, in every configuration \<open>c\<close> that the workers can reach:
  \<^item> every worker starts before the first barrier, and a step moves a worker to the same
    or to the next stage, so a worker reaches its loop only through an arrival at the first
    barrier and returns only through an arrival at the second;
  \<^item> if some worker is past the first barrier, every worker has arrived at it, and if some
    worker is past the second barrier, every worker has finished its loop and arrived at it;
  \<^item> the statistics calls logged so far were made by worker 0: the reset-and-start call
    once worker 0 has left the first barrier, the stop-and-dump call once it has left the
    second, each at most once, and each exactly once when all workers have returned. The
    calls exist in builds that define \<^verbatim>\<open>GEM5\<close>; otherwise the log stays empty;
  \<^item> the workers are never stuck: some continuation of the schedule lets all of them
    return.
\<close>

theorem barrier_gated_workers:
  fixes w :: "'a::{times,plus} MultiThreadedDaxpy"
  assumes T: "1 \<le> num_threads w"
    and fresh: "thread_barrier w = \<lparr>expected = num_threads w, arrived = 0, phase = 0\<rparr>"
    and sz: "sized w"
  shows "(\<forall>t<num_threads w. pcs (workers_after gem5 [] w) ! t = Arrive1)
    \<and> (\<forall>t<num_threads w.
          stage (pcs (workers_after gem5 (sched @ [tid]) w) ! t)
            = stage (pcs (workers_after gem5 sched w) ! t)
          \<or> stage (pcs (workers_after gem5 (sched @ [tid]) w) ! t)
            = Suc (stage (pcs (workers_after gem5 sched w) ! t)))
    \<and> (\<forall>t<num_threads w. 2 \<le> stage (pcs (workers_after gem5 sched w) ! t) \<longrightarrow>
          (\<forall>u<num_threads w. 1 \<le> stage (pcs (workers_after gem5 sched w) ! u)))
    \<and> (\<forall>t<num_threads w. 6 \<le> stage (pcs (workers_after gem5 sched w) ! t) \<longrightarrow>
          (\<forall>u<num_threads w. 5 \<le> stage (pcs (workers_after gem5 sched w) ! u)))
    \<and> hooks (workers_after gem5 sched w)
        = (if gem5 \<and> 3 \<le> stage (pcs (workers_after gem5 sched w) ! 0)
           then [(0, ResetStats)] else [])
          @ (if gem5 \<and> stage (pcs (workers_after gem5 sched w) ! 0) = 7
             then [(0, DumpStats)] else [])
    \<and> (all_done (workers_after gem5 sched w) \<longrightarrow>
          hooks (workers_after gem5 sched w)
            = (if gem5 then [(0, ResetStats), (0, DumpStats)] else []))
    \<and> (\<exists>rest. all_done (workers_after gem5 (sched @ rest) w))"
proof -
  let ?T = "num_threads w"
  let ?c = "workers_after gem5 sched w"
  have binv: "barrier_inv ?T ?c"
    unfolding workers_after_def
    using barrier_inv_launch_workers [OF T fresh] by (rule barrier_inv_run)
  have linv: "loop_inv (alpha w) (x_vec w) (y_vec w) (vector_size w) ?T ?c"
    unfolding workers_after_def
    using loop_inv_launch_workers [OF sz] by (rule loop_inv_run)
  have hinv: "hooks_inv gem5 ?c"
    unfolding workers_after_def
    using hooks_inv_launch_workers [OF T] by (rule hooks_inv_run)
  from binv have len: "length (pcs ?c) = ?T"
    by (simp add: barrier_inv_def)
  have 1: "\<forall>t<?T. pcs (workers_after gem5 [] w) ! t = Arrive1"
    by (simp add: workers_after_def run_threads_def launch_workers_def)
  have 2: "\<forall>t<?T. stage (pcs (workers_after gem5 (sched @ [tid]) w) ! t) = stage (pcs ?c ! t)
      \<or> stage (pcs (workers_after gem5 (sched @ [tid]) w) ! t) = Suc (stage (pcs ?c ! t))"
  proof (intro allI impI)
    fix t
    assume "t < ?T"
    with len have "t < length (pcs ?c)"
      by simp
    from stage_step [OF this, of gem5 "alpha w" "x_vec w" "vector_size w" ?T tid]
    show "stage (pcs (workers_after gem5 (sched @ [tid]) w) ! t) = stage (pcs ?c ! t)
      \<or> stage (pcs (workers_after gem5 (sched @ [tid]) w) ! t) = Suc (stage (pcs ?c ! t))"
      by (simp add: workers_after_append run_threads_def)
  qed
  have 3: "\<forall>t<?T. 2 \<le> stage (pcs ?c ! t) \<longrightarrow> (\<forall>u<?T. 1 \<le> stage (pcs ?c ! u))"
    using barrier_inv_first [OF binv] by blast
  have 4: "\<forall>t<?T. 6 \<le> stage (pcs ?c ! t) \<longrightarrow> (\<forall>u<?T. 5 \<le> stage (pcs ?c ! u))"
    using barrier_inv_second [OF binv] by blast
  have 5: "hooks ?c = (if gem5 \<and> 3 \<le> stage (pcs ?c ! 0) then [(0, ResetStats)] else [])
      @ (if gem5 \<and> stage (pcs ?c ! 0) = 7 then [(0, DumpStats)] else [])"
    using hinv by (simp add: hooks_inv_def)
  have 6: "hooks ?c = (if gem5 then [(0, ResetStats), (0, DumpStats)] else [])" if "all_done ?c"
  proof -
    from T len have "pcs ?c ! 0 \<in> set (pcs ?c)"
      by simp
    with that have "pcs ?c ! 0 = Done"
      by (simp add: all_done_def list_all_iff is_done_iff)
    with 5 show ?thesis
      by simp
  qed
  from gated_can_finish [OF linv binv, of gem5]
  have 7: "\<exists>rest. all_done (workers_after gem5 (sched @ rest) w)"
    by (simp add: workers_after_append)
  from 1 2 3 4 5 6 7 show ?thesis
    by blast
qed

lemma workers_after_example:
  "workers_after True schedule_gated (spec_example2 4) =
     \<lparr>mem = [12, 24, 36, 48], bar = \<lparr>expected = 4, arrived = 0, phase = 2\<rparr>,
      hooks = [(0, ResetStats), (0, DumpStats)], pcs = [Done, Done, Done, Done]\<rparr>"
  by (simp add: workers_after_def run_threads_def worker_step_def launch_workers_def
      spec_example2_def worker_start_def worker_end_def arrive_def schedule_gated_def upt_rec)

theorem barrier_gated_workers_witness:
  "1 \<le> num_threads (spec_example2 4)
   \<and> thread_barrier (spec_example2 4)
       = \<lparr>expected = num_threads (spec_example2 4), arrived = 0, phase = 0\<rparr>
   \<and> sized (spec_example2 4)
   \<and> all_done (workers_after True schedule_gated (spec_example2 4))
   \<and> hooks (workers_after True schedule_gated (spec_example2 4))
       = [(0, ResetStats), (0, DumpStats)]
   \<and> pcs (workers_after True (take 3 schedule_gated) (spec_example2 4))
       = [Wait1 0, Wait1 0, Wait1 0, Arrive1]"
proof -
  have h: "1 \<le> num_threads (spec_example2 4)"
    "thread_barrier (spec_example2 4)
      = \<lparr>expected = num_threads (spec_example2 4), arrived = 0, phase = 0\<rparr>"
    "sized (spec_example2 4)"
    by (simp_all add: spec_example2_def sized_def)
  have d: "all_done (workers_after True schedule_gated (spec_example2 4))"
    by (simp add: workers_after_example all_done_def)
  from barrier_gated_workers
    [OF h, where ?gem5.0 = True and sched = schedule_gated and tid = 0]
  have "all_done (workers_after True schedule_gated (spec_example2 4)) \<longrightarrow>
      hooks (workers_after True schedule_gated (spec_example2 4))
        = (if True then [(0, ResetStats), (0, DumpStats)] else [])"
    by (elim conjE)
  with d have k: "hooks (workers_after True schedule_gated (spec_example2 4))
      = [(0, ResetStats), (0, DumpStats)]"
    by simp
  have m: "pcs (workers_after True (take 3 schedule_gated) (spec_example2 4))
      = [Wait1 0, Wait1 0, Wait1 0, Arrive1]"
    by (simp add: workers_after_def run_threads_def worker_step_def launch_workers_def
        spec_example2_def arrive_def schedule_gated_def upt_rec)
  from h d k m show ?thesis
    by (intro conjI)
qed

section \<open>The compute phase\<close>

lemma parallel_phase_completes:
  assumes "sized w" and "1 \<le> num_threads w"
    and "thread_barrier w = \<lparr>expected = num_threads w, arrived = 0, phase = 0\<rparr>"
  shows "\<exists>sched w' hs. parallel_phase gem5 sched w = Some (w', hs)"
proof -
  from gated_can_finish [OF loop_inv_launch_workers [OF assms(1)]
      barrier_inv_launch_workers [OF assms(2,3)], of gem5]
  obtain sched where "all_done (workers_after gem5 sched w)"
    unfolding workers_after_def by blast
  then show ?thesis
    by (auto simp: parallel_phase_workers_after)
qed

text \<open>
  Claim C1. For every vector length \<open>N\<close>, thread count \<open>T \<ge> 1\<close>, scalar \<open>alpha\<close> and vectors
  \<open>x\<close>, \<open>y\<close> of length \<open>N\<close>: when the compute phase is over, \<open>y[i]\<close> is
  \<open>alpha * x[i] + y_before[i]\<close> for every \<open>i < N\<close>. This holds for the single-threaded
  call, for the unsynchronised workers of driver 1 and for the barrier-gated workers of
  driver 2, under every schedule that lets all workers return, and such schedules exist.
  For \<open>N = 4\<close>, \<open>alpha = 2\<close>,
  \<open>x = [1, 2, 3, 4]\<close>, \<open>y = [10, 20, 30, 40]\<close> the result is \<open>[12, 24, 36, 48]\<close> with
  \<open>T = 1\<close> and with \<open>T = 4\<close>. The specification's example gives 44 for the last
  element, where \<open>2 * 4 + 40 = 48\<close>; \<open>daxpy_example_counterexample\<close> below evaluates the
  single-threaded run at that input.
\<close>

theorem daxpy_result:
  fixes b :: "'a::{times,plus} DaxpyBenchmark" and w :: "'a MultiThreadedDaxpy"
  shows "(sized b \<longrightarrow>
        (\<forall>i<vector_size b.
           y_vec (run_single_threaded b) ! i = alpha b * x_vec b ! i + y_vec b ! i))
    \<and> (sized b \<and> 1 \<le> num_threads b \<and> run_multithreaded sched b = Some b' \<longrightarrow>
        (\<forall>i<vector_size b. y_vec b' ! i = alpha b * x_vec b ! i + y_vec b ! i))
    \<and> (sized w \<and> 1 \<le> num_threads w \<and> parallel_phase gem5 sched w = Some (w', hs) \<longrightarrow>
        (\<forall>i<vector_size w. y_vec w' ! i = alpha w * x_vec w ! i + y_vec w ! i))
    \<and> y_vec (run_single_threaded (spec_example 1)) = [12, 24, 36, 48]
    \<and> (run_multithreaded sched (spec_example 4) = Some e \<longrightarrow> y_vec e = [12, 24, 36, 48])
    \<and> (parallel_phase gem5 sched (spec_example2 1) = Some (e1, hs1) \<longrightarrow>
          y_vec e1 = [12, 24, 36, 48])
    \<and> (parallel_phase gem5 sched (spec_example2 4) = Some (e4, hs4) \<longrightarrow>
          y_vec e4 = [12, 24, 36, 48])
    \<and> (sized b \<and> 1 \<le> num_threads b \<longrightarrow> (\<exists>s r. run_multithreaded s b = Some r))
    \<and> (sized w \<and> 1 \<le> num_threads w
        \<and> thread_barrier w = \<lparr>expected = num_threads w, arrived = 0, phase = 0\<rparr> \<longrightarrow>
          (\<exists>s r h. parallel_phase gem5 s w = Some (r, h)))"
proof -
  have 1: "\<forall>i<vector_size b.
      y_vec (run_single_threaded b) ! i = alpha b * x_vec b ! i + y_vec b ! i" if "sized b"
    by (simp add: run_single_threaded_result [OF that])
  have 2: "\<forall>i<vector_size b. y_vec b' ! i = alpha b * x_vec b ! i + y_vec b ! i"
    if "sized b" "1 \<le> num_threads b" "run_multithreaded sched b = Some b'"
    using run_multithreaded_result [OF that(1) _ that(3)] that(2) by simp
  have 3: "\<forall>i<vector_size w. y_vec w' ! i = alpha w * x_vec w ! i + y_vec w ! i"
    if "sized w" "1 \<le> num_threads w" "parallel_phase gem5 sched w = Some (w', hs)"
    using parallel_phase_result(1) [OF that(1) _ that(3)] that(2) by simp
  have s1: "sized (spec_example T)" and s2: "sized (spec_example2 T)" for T
    by (simp_all add: sized_def spec_example_def spec_example2_def)
  have v: "map (\<lambda>i. alpha (spec_example T) * x_vec (spec_example T) ! i + y_vec (spec_example T) ! i)
      [0..<vector_size (spec_example T)] = [12, 24, 36, 48]" for T
    by (simp add: spec_example_def upt_rec)
  have v2: "map (\<lambda>i. alpha (spec_example2 T) * x_vec (spec_example2 T) ! i
        + y_vec (spec_example2 T) ! i) [0..<vector_size (spec_example2 T)] = [12, 24, 36, 48]" for T
    by (simp add: spec_example2_def upt_rec)
  have 4: "y_vec (run_single_threaded (spec_example 1)) = [12, 24, 36, 48]"
    by (simp add: run_single_threaded_result [OF s1] v)
  have 5: "y_vec e = [12, 24, 36, 48]" if "run_multithreaded sched (spec_example 4) = Some e"
    using run_multithreaded_result [OF s1 _ that] by (simp add: v) (simp add: spec_example_def)
  have 6: "y_vec e1 = [12, 24, 36, 48]"
    if "parallel_phase gem5 sched (spec_example2 1) = Some (e1, hs1)"
    using parallel_phase_result(1) [OF s2 _ that] by (simp add: v2) (simp add: spec_example2_def)
  have 7: "y_vec e4 = [12, 24, 36, 48]"
    if "parallel_phase gem5 sched (spec_example2 4) = Some (e4, hs4)"
    using parallel_phase_result(1) [OF s2 _ that] by (simp add: v2) (simp add: spec_example2_def)
  have 8: "\<exists>s r. run_multithreaded s b = Some r" if "sized b"
    using run_multithreaded_completes [OF that order_refl] by blast
  have 9: "\<exists>s r h. parallel_phase gem5 s w = Some (r, h)"
    if "sized w" "1 \<le> num_threads w"
      "thread_barrier w = \<lparr>expected = num_threads w, arrived = 0, phase = 0\<rparr>"
    using parallel_phase_completes [OF that] by blast
  from 1 2 3 4 5 6 7 8 9 show ?thesis
    by blast
qed


theorem daxpy_result_witness:
  "sized (spec_example 4) \<and> 1 \<le> num_threads (spec_example 4)
   \<and> run_multithreaded [3, 0, 0, 1, 3, 2, 1, 2, 0, 1, 2, 3] (spec_example 4)
       = Some ((spec_example 4)\<lparr>y_vec := [12, 24, 36, 48]\<rparr>)
   \<and> [12, 24, 36, 48] ! 3 = 2 * [1, 2, 3, 4] ! 3 + [10, 20, 30, 40 :: real] ! 3"
proof -
  let ?sched = "[3, 0, 0, 1, 3, 2, 1, 2, 0, 1, 2, 3]"
  have s: "sized (spec_example 4)" and t: "1 \<le> num_threads (spec_example 4)"
    by (simp_all add: sized_def spec_example_def)
  have run: "run_multithreaded ?sched (spec_example 4)
      = Some ((spec_example 4)\<lparr>y_vec := [12, 24, 36, 48]\<rparr>)"
    by (simp add: run_multithreaded_def run_threads_def worker_step_def launch_def
        spec_example_def part_start_def part_end_def chunk_size_def all_done_def upt_rec)
  from daxpy_result [of "spec_example 4" ?sched "(spec_example 4)\<lparr>y_vec := [12, 24, 36, 48]\<rparr>"]
    s t run
  have "\<forall>i<vector_size (spec_example 4).
      y_vec ((spec_example 4)\<lparr>y_vec := [12, 24, 36, 48]\<rparr>) ! i
        = alpha (spec_example 4) * x_vec (spec_example 4) ! i + y_vec (spec_example 4) ! i"
    by blast
  then have "[12, 24, 36, 48] ! 3 = 2 * [1, 2, 3, 4] ! 3 + [10, 20, 30, 40 :: real] ! 3"
    by (simp add: spec_example_def)
  with s t run show ?thesis
    by blast
qed

text \<open>The worked example of claim C1 as the specification prints it does not hold.\<close>

theorem daxpy_example_counterexample:
  "y_vec (run_single_threaded (spec_example 1)) = [12, 24, 36, 48]
   \<and> y_vec (run_single_threaded (spec_example 1)) \<noteq> [12, 24, 36, 44]"
proof -
  have "sized (spec_example 1)"
    by (simp add: sized_def spec_example_def)
  from run_single_threaded_result [OF this]
  have "y_vec (run_single_threaded (spec_example 1)) = [12, 24, 36, 48]"
    by (simp add: spec_example_def upt_rec)
  then show ?thesis
    by simp
qed

section \<open>Arguments that are rejected and conversions that throw\<close>

text \<open>
  Both drivers convert their arguments before they construct or launch anything, and no
  conversion is inside a \<^verbatim>\<open>try\<close> block. A run prints nothing exactly when one of these
  conversions throws, and it then ends with the exception.
\<close>

lemma main2_throws:
  fixes env :: "'a::linordered_field env"
  assumes "length args = 3"
  shows "conversion_throws2 env args \<longleftrightarrow> (\<exists>e. main2 env args = ([], Terminate e))"
    and "conversion_throws2 env args \<longleftrightarrow> fst (main2 env args) = []"
  using assms
  by (auto simp: conversion_throws2_def main2_def isl_def Let_def
      split: sum.splits option.splits prod.splits if_splits)

lemma main1_throws:
  fixes env :: "'a::field env"
  shows "conversion_throws1 env args \<longleftrightarrow> (\<exists>e. main1 env args = ([], Terminate e))"
    and "conversion_throws1 env args \<longleftrightarrow> fst (main1 env args) = []"
proof -
  have "fst (main1 env args) \<noteq> []" if "parse_args1 env args = Inr q" for q
    using that by (cases q) (simp add: main1_def Let_def split: option.splits)
  moreover have "main1 env args = ([], Terminate e)" if "parse_args1 env args = Inl e" for e
    using that by (simp add: main1_def)
  ultimately show "conversion_throws1 env args \<longleftrightarrow> (\<exists>e. main1 env args = ([], Terminate e))"
    and "conversion_throws1 env args \<longleftrightarrow> fst (main1 env args) = []"
    using parse_args1_throws [of env args]
    by (cases "parse_args1 env args"; fastforce)+
qed

text \<open>
  Claim C6. Driver 2 prints its usage text and exits with code 1 whenever it is not given
  exactly three positional arguments. Given three arguments, it first converts all of
  them. When the three conversions return \<open>n\<close>, \<open>t\<close> and \<open>a\<close>, it exits with code 1
  after one descriptive line whenever \<open>t\<close> is outside \<open>[1, hardware_concurrency()]\<close> or
  \<open>n = 0\<close>: the thread-count message in the first case, the vector-size message otherwise.
  Nothing else is printed on these paths: the object is not constructed (no banner) and
  \<^verbatim>\<open>run_parallel\<close> is not entered, so no worker exists. When one of the three conversions
  throws, the checks are not reached, whatever the other two arguments are: the exception
  leaves \<^verbatim>\<open>main\<close>, nothing is printed and no exit code is returned. So the claim as the
  specification words it, exit code 1 whenever the thread count is out of range or the
  size is zero, fails for such arguments; two of them are evaluated below.
\<close>

theorem main2_rejects_configuration:
  fixes env :: "'a::linordered_field env"
  shows "(length args \<noteq> 3 \<longrightarrow> main2 env args = ([Usage], Exit 1))
   \<and> (length args = 3
        \<and> std_stoull env (args ! 0) = Inr n \<and> std_stoi env (args ! 1) = Inr t
        \<and> std_stod env (args ! 2) = Inr a
        \<and> (t < 1 \<or> int (hardware_concurrency env) < t \<or> n = 0)
      \<longrightarrow> main2 env args =
            ([if t < 1 \<or> int (hardware_concurrency env) < t
              then InvalidThreads (hardware_concurrency env) else ZeroVectorSize], Exit 1))
   \<and> (length args = 3 \<and> conversion_throws2 env args
      \<longrightarrow> (\<exists>e. main2 env args = ([], Terminate e)))
   \<and> (length args = 3 \<and> snd (main2 env args) = Exit 1
      \<longrightarrow> \<not> conversion_throws2 env args)"
proof -
  have 1: "length args \<noteq> 3 \<longrightarrow> main2 env args = ([Usage], Exit 1)"
    by (simp add: main2_def)
  have 2: "length args = 3
        \<and> std_stoull env (args ! 0) = Inr n \<and> std_stoi env (args ! 1) = Inr t
        \<and> std_stod env (args ! 2) = Inr a
        \<and> (t < 1 \<or> int (hardware_concurrency env) < t \<or> n = 0)
      \<longrightarrow> main2 env args =
            ([if t < 1 \<or> int (hardware_concurrency env) < t
              then InvalidThreads (hardware_concurrency env) else ZeroVectorSize], Exit 1)"
    by (auto simp: main2_def)
  have 3: "\<exists>e. main2 env args = ([], Terminate e)"
    if "length args = 3" "conversion_throws2 env args"
    using main2_throws(1) [OF that(1), of env] that(2) by simp
  have 4: "\<not> conversion_throws2 env args" if "length args = 3" "snd (main2 env args) = Exit 1"
  proof
    assume "conversion_throws2 env args"
    with 3 [OF that(1)] obtain e where "main2 env args = ([], Terminate e)"
      by blast
    with that(2) show False
      by simp
  qed
  from 1 2 3 4 show ?thesis
    by blast
qed

theorem main2_rejects_configuration_witness:
  "main2 (example_env []) [''1000'', ''4''] = ([Usage], Exit 1)
   \<and> main2 (example_env []) [''1000'', ''0'', ''2.5''] = ([InvalidThreads 8], Exit 1)
   \<and> main2 (example_env []) [''1000'', ''9'', ''2.5''] = ([InvalidThreads 8], Exit 1)
   \<and> main2 (example_env []) [''0'', ''4'', ''2.5''] = ([ZeroVectorSize], Exit 1)
   \<and> conversion_throws2 (example_env []) [''1000'', ''4'', ''x'']
   \<and> main2 (example_env []) [''1000'', ''4'', ''x''] = ([], Terminate InvalidArgument)"
proof -
  have p: "stoul_model ''1000'' = Inr 1000" "stoul_model ''0'' = Inr 0"
    "stoi_model ''4'' = Inr 4" "stoi_model ''0'' = Inr 0" "stoi_model ''9'' = Inr 9"
    "stod_model ''2.5'' = Inr (5 / 2 :: real)"
    "stod_model ''x'' = (Inl InvalidArgument :: exn + real)"
    by (simp_all add: parser_defs)
  note e = example_env_simps
  have t: "conversion_throws2 (example_env []) [''1000'', ''4'', ''x'']"
    by (simp add: conversion_throws2_def e p)
  have r: "main2 (example_env []) [''1000'', ''4'', ''x''] = ([], Terminate InvalidArgument)"
    by (simp add: main2_def e p)
  have "main2 (example_env []) [''1000'', ''4''] = ([Usage], Exit 1)
   \<and> main2 (example_env []) [''1000'', ''0'', ''2.5''] = ([InvalidThreads 8], Exit 1)
   \<and> main2 (example_env []) [''1000'', ''9'', ''2.5''] = ([InvalidThreads 8], Exit 1)
   \<and> main2 (example_env []) [''0'', ''4'', ''2.5''] = ([ZeroVectorSize], Exit 1)"
    using main2_rejects_configuration [of "[''1000'', ''4'']" "example_env []"]
      main2_rejects_configuration [of "[''1000'', ''0'', ''2.5'']" "example_env []" 1000 0 "5 / 2"]
      main2_rejects_configuration [of "[''1000'', ''9'', ''2.5'']" "example_env []" 1000 9 "5 / 2"]
      main2_rejects_configuration [of "[''0'', ''4'', ''2.5'']" "example_env []" 0 4 "5 / 2"]
    by (simp add: p e)
  with t r show ?thesis
    by simp
qed

text \<open>
  The claim as worded fails: with a size of 0 and 9 threads on a machine with 8 hardware
  threads, but a third argument that is no number, and with a thread count of \<open>2^31\<close>,
  which \<^verbatim>\<open>std::stoi\<close> refuses, the process is terminated by the exception instead of
  exiting with code 1 after a message.
\<close>

theorem main2_rejects_configuration_counterexample:
  "std_stoull (example_env []) ''0'' = Inr 0
   \<and> std_stoi (example_env []) ''9'' = Inr 9
   \<and> hardware_concurrency (example_env []) = 8
   \<and> main2 (example_env []) [''0'', ''9'', ''zz''] = ([], Terminate InvalidArgument)
   \<and> snd (main2 (example_env []) [''0'', ''9'', ''zz'']) \<noteq> Exit 1
   \<and> main2 (example_env []) [''1000'', ''2147483648'', ''2.5''] = ([], Terminate OutOfRange)
   \<and> snd (main2 (example_env []) [''1000'', ''2147483648'', ''2.5'']) \<noteq> Exit 1"
proof -
  have p: "stoul_model ''0'' = Inr 0" "stoi_model ''9'' = Inr 9"
    "stod_model ''zz'' = (Inl InvalidArgument :: exn + real)"
    "stoul_model ''1000'' = Inr 1000" "stoi_model ''2147483648'' = Inl OutOfRange"
    by (simp_all add: parser_defs)
  have a: "main2 (example_env []) [''0'', ''9'', ''zz''] = ([], Terminate InvalidArgument)"
    by (simp add: main2_def example_env_simps p)
  have b: "main2 (example_env []) [''1000'', ''2147483648'', ''2.5''] = ([], Terminate OutOfRange)"
    by (simp add: main2_def example_env_simps p)
  from a b show ?thesis
    by (simp add: example_env_simps p)
qed

text \<open>
  Claim C7. In either driver, when the conversion of a positional numeric argument throws
  (the argument does not begin with a number, or the number does not fit the type), the
  exception is raised before anything is constructed or launched and nothing is tried
  again: the conversions come first, each is called once, and none is inside a \<^verbatim>\<open>try\<close>
  block. No handler catches the exception, so the program prints nothing of its own and
  \<^verbatim>\<open>main\<close> returns no exit code; the process is ended by \<^verbatim>\<open>std::terminate\<close>. These are
  the only runs that end before the first line is printed. Driver 2 gets that far only
  with exactly three arguments; with any other number it prints the usage text and exits
  with code 1 without converting anything. The claim as the specification words it does
  not hold: an argument that is not a number but begins with one, such as \<^verbatim>\<open>4x\<close>, or
  \<^verbatim>\<open>2.7\<close> for a thread count, is converted to that number and the run proceeds; and
  where the conversion does throw, the program itself reports nothing and returns no
  code. The runs below show both.
\<close>

theorem throwing_conversion_terminates:
  fixes env1 :: "'a::field env" and env2 :: "'b::linordered_field env"
  shows "(conversion_throws1 env1 args \<longleftrightarrow> (\<exists>e. main1 env1 args = ([], Terminate e)))
    \<and> (conversion_throws1 env1 args \<longleftrightarrow> fst (main1 env1 args) = [])
    \<and> (length args = 3 \<longrightarrow>
          (conversion_throws2 env2 args \<longleftrightarrow> (\<exists>e. main2 env2 args = ([], Terminate e)))
          \<and> (conversion_throws2 env2 args \<longleftrightarrow> fst (main2 env2 args) = []))
    \<and> (length args \<noteq> 3 \<longrightarrow> main2 env2 args = ([Usage], Exit 1))"
proof -
  have "length args \<noteq> 3 \<longrightarrow> main2 env2 args = ([Usage], Exit 1)"
    by (simp add: main2_def)
  with main1_throws [of env1 args] main2_throws [of args env2] show ?thesis
    by blast
qed

theorem throwing_conversion_terminates_witness:
  "conversion_throws1 (example_env []) [''abc'']
   \<and> fst (main1 (example_env []) [''abc'']) = []
   \<and> snd (main1 (example_env []) [''abc'']) = Terminate InvalidArgument
   \<and> conversion_throws2 (example_env []) [''1000'', ''four'', ''2.5'']
   \<and> fst (main2 (example_env []) [''1000'', ''four'', ''2.5'']) = []
   \<and> snd (main2 (example_env []) [''1000'', ''four'', ''2.5'']) = Terminate InvalidArgument
   \<and> main2 (example_env []) [''7''] = ([Usage], Exit 1)"
proof -
  let ?e = "example_env []"
  let ?a1 = "[''abc'']"
  let ?a2 = "[''1000'', ''four'', ''2.5'']"
  have p: "stoul_model ''abc'' = Inl InvalidArgument" "stoul_model ''1000'' = Inr 1000"
    "stoi_model ''four'' = Inl InvalidArgument"
    by (simp_all add: parser_defs)
  note e = example_env_simps
  have m1: "conversion_throws1 ?e ?a1"
    by (simp add: conversion_throws1_def e p)
  have m2: "conversion_throws2 ?e ?a2"
    by (simp add: conversion_throws2_def e p)
  have r1: "snd (main1 ?e ?a1) = Terminate InvalidArgument"
    by (simp add: main1_def parse_args1_def e p)
  have r2: "snd (main2 ?e ?a2) = Terminate InvalidArgument"
    by (simp add: main2_def e p)
  have l: "length ?a2 = 3" "length [''7''] \<noteq> 3"
    by simp_all
  from throwing_conversion_terminates [of ?e ?a1 ?e]
  have "conversion_throws1 ?e ?a1 \<longleftrightarrow> fst (main1 ?e ?a1) = []"
    by (elim conjE)
  with m1 have f1: "fst (main1 ?e ?a1) = []"
    by simp
  from throwing_conversion_terminates [of ?e ?a2 ?e]
  have "length ?a2 = 3 \<longrightarrow>
      (conversion_throws2 ?e ?a2 \<longleftrightarrow> (\<exists>e. main2 ?e ?a2 = ([], Terminate e)))
      \<and> (conversion_throws2 ?e ?a2 \<longleftrightarrow> fst (main2 ?e ?a2) = [])"
    by (elim conjE)
  with l(1) m2 have f2: "fst (main2 ?e ?a2) = []"
    by blast
  from throwing_conversion_terminates [of ?e "[''7'']" ?e]
  have "length [''7''] \<noteq> 3 \<longrightarrow> main2 ?e [''7''] = ([Usage], Exit 1)"
    by (elim conjE)
  with l(2) have u: "main2 ?e [''7''] = ([Usage], Exit 1)"
    by (elim impE)
  from m1 f1 r1 m2 f2 r2 u show ?thesis
    by (intro conjI)
qed

text \<open>
  The claim as worded fails in each of its parts. \<^verbatim>\<open>abc\<close> is no vector size: driver 2
  prints nothing and \<^verbatim>\<open>main\<close> returns no exit code, the exception ends the process.
  \<^verbatim>\<open>4x\<close> is not a number, yet driver 1 takes it as the size 4, runs and exits with code
  0. \<^verbatim>\<open>2.7\<close> is not a thread count, yet driver 2 takes it as 2, constructs the object
  and launches its workers.
\<close>

theorem malformed_argument_counterexample:
  "\<not> unsigned_text ''abc''
   \<and> main2 (example_env []) [''abc'', ''4'', ''2.5''] = ([], Terminate InvalidArgument)
   \<and> \<not> unsigned_text ''4x''
   \<and> std_stoul (example_env []) ''4x'' = Inr 4
   \<and> main1 (example_env []) [''4x'']
       = ([Banner 4 1 (5 / 2), StartingComputation, SingleThreadedTime,
           FirstResults [13 / 2, 8, 19 / 2, 11], BenchmarkCompleted], Exit 0)
   \<and> \<not> unsigned_text ''2.7''
   \<and> std_stoi (example_env []) ''2.7'' = Inr 2
   \<and> main2 (example_env []) [''4'', ''2.7'', ''2''] = ([Banner 4 2 2, StartingParallel], Joining)"
proof -
  have p: "stoul_model ''4x'' = Inr 4" "stoi_model ''2.7'' = Inr 2" "stoul_model ''4'' = Inr 4"
    "stod_model ''2'' = Inr (2 :: real)" "stoul_model ''abc'' = Inl InvalidArgument"
    by (simp_all add: parser_defs)
  have u: "\<not> unsigned_text ''abc''" "\<not> unsigned_text ''4x''" "\<not> unsigned_text ''2.7''"
    by (simp_all add: unsigned_text_def digit_val_def)
  have r0: "main2 (example_env []) [''abc'', ''4'', ''2.5''] = ([], Terminate InvalidArgument)"
    by (simp add: main2_def example_env_simps p)
  have p1: "parse_args1 (example_env []) [''4x''] = Inr (4, 1, 5 / 2 :: real)"
    by (simp add: parse_args1_def example_env_simps p)
  have "snd (main1 (example_env []) [''4x'']) = Exit 0"
    by (simp add: main1_def p1 Let_def example_env_simps)
  then have m1: "main1 (example_env []) [''4x'']
      = (fst (main1 (example_env []) [''4x'']), Exit 0)"
    by (simp add: prod_eq_iff)
  have "fst (main1 (example_env []) [''4x''])
      = [Banner 4 1 (5 / 2), StartingComputation, SingleThreadedTime,
         FirstResults [13 / 2, 8, 19 / 2, 11], BenchmarkCompleted]"
    unfolding main1_output [OF p1 m1] by (simp add: upt_rec)
  with m1 have r1: "main1 (example_env []) [''4x'']
       = ([Banner 4 1 (5 / 2), StartingComputation, SingleThreadedTime,
           FirstResults [13 / 2, 8, 19 / 2, 11], BenchmarkCompleted], Exit 0)"
    by simp
  have r2: "main2 (example_env []) [''4'', ''2.7'', ''2'']
      = ([Banner 4 2 2, StartingParallel], Joining)"
    by (simp add: main2_def example_env_simps p run_parallel_def parallel_phase_def
        run_threads_def launch_workers_def new_MultiThreadedDaxpy_def all_done_def upt_rec
        split: prod.splits)
  from u r0 r1 r2 show ?thesis
    by (simp add: example_env_simps p)
qed

end
